theory Spec2Isabelle
  imports Main
begin

section \<open>Data model of \<open>scripts/gui_selector.py\<close>\<close>

text \<open>
  The dataclass \<open>SelectableComponent\<close>. Python strings are modelled as \<open>string\<close>; every
  string of the component table is ASCII, so \<open>length\<close> is Python's \<open>len\<close> on them.
\<close>

record SelectableComponent =
  name :: string
  slug :: string
  description :: string
  selected :: bool
  category :: string

text \<open>
  Components are Python objects: a list of components holds references, and assigning
  \<open>component.selected\<close> mutates the object every holder of the reference sees. The
  objects live in a store; a reference is an address of the store.
\<close>

type_synonym ref = nat

type_synonym heap = "ref \<Rightarrow> SelectableComponent"

record store =
  objs :: heap
  next_ref :: ref

text \<open>
  The fields of \<open>ComponentSelector\<close> that carry state. The window handle \<open>stdscr\<close> and
  the colour attributes are the terminal's; what the terminal answers is an input of the
  model (\<open>frame\<close> and \<open>terminal\<close> below).
\<close>

record ComponentSelector =
  components :: "ref list"
  current_index :: int
  scroll_offset :: int
  cancelled :: bool

text \<open>
  The exceptions that can arise in the module: \<open>IndexError\<close> from list indexing,
  \<open>curses.error\<close> from a call into the curses library, and \<open>KeyboardInterrupt\<close> from the
  interrupt signal. \<open>is_Exception e\<close> is Python's \<open>isinstance(e, Exception)\<close>:
  \<open>KeyboardInterrupt\<close> derives from \<open>BaseException\<close> only.
\<close>

datatype py_exception = IndexError | CursesError | KeyboardInterrupt

fun is_Exception :: "py_exception \<Rightarrow> bool" where
  "is_Exception IndexError = True"
| "is_Exception CursesError = True"
| "is_Exception KeyboardInterrupt = False"

text \<open>Python's \<open>xs[i]\<close>: a negative index counts from the end, out of range raises.\<close>

definition py_index :: "'a list \<Rightarrow> int \<Rightarrow> py_exception + 'a" where
  "py_index xs i =
     (if 0 \<le> i \<and> i < int (length xs) then Inr (xs ! nat i)
      else if i < 0 \<and> - int (length xs) \<le> i then Inr (xs ! nat (int (length xs) + i))
      else Inl IndexError)"

text \<open>Python's \<open>xs[:n]\<close>: a negative stop counts from the end; never raises.\<close>

definition py_slice_to :: "'a list \<Rightarrow> int \<Rightarrow> 'a list" where
  "py_slice_to xs n = (if 0 \<le> n then take (nat n) xs else take (nat (int (length xs) + n)) xs)"

section \<open>The component table\<close>

definition COMPONENT_DEFINITIONS :: "SelectableComponent list" where
  "COMPONENT_DEFINITIONS =
   [\<lparr>name = ''Guppy Screen'', slug = ''guppyscreen'',
      description = ''Alternative touchscreen UI for the printer display'',
      selected = True, category = ''Display & Interface''\<rparr>,
    \<lparr>name = ''Mainsail'', slug = ''mainsail'',
      description = ''Modern web interface for Klipper'',
      selected = True, category = ''Display & Interface''\<rparr>,
    \<lparr>name = ''uStreamer'', slug = ''ustreamer'',
      description = ''Lightweight MJPEG streaming server for camera'',
      selected = True, category = ''Camera & Streaming''\<rparr>,
    \<lparr>name = ''Timelapse (MJPEG)'', slug = ''timelapse'',
      description = ''Print timelapse recording with MJPEG encoder'',
      selected = True, category = ''Camera & Streaming''\<rparr>,
    \<lparr>name = ''Timelapse (H264)'', slug = ''timelapseh264'',
      description = ''Print timelapse recording with H264 encoder'',
      selected = False, category = ''Camera & Streaming''\<rparr>,
    \<lparr>name = ''All Macros & Configs'', slug = ''macros'',
      description = ''Complete set of macros, start_print, and overrides'',
      selected = True, category = ''Macros & Configuration''\<rparr>,
    \<lparr>name = ''Macros Only'', slug = ''macros_only'',
      description = ''Install only macros.cfg'',
      selected = False, category = ''Macros & Configuration''\<rparr>,
    \<lparr>name = ''Start Print Only'', slug = ''start_print'',
      description = ''Install only start_print.cfg'',
      selected = False, category = ''Macros & Configuration''\<rparr>,
    \<lparr>name = ''Overrides Only'', slug = ''overrides'',
      description = ''Install only overrides.cfg'',
      selected = False, category = ''Macros & Configuration''\<rparr>,
    \<lparr>name = ''KAMP'', slug = ''kamp'',
      description = ''Klipper Adaptive Meshing & Purging'',
      selected = False, category = ''Macros & Configuration''\<rparr>,
    \<lparr>name = ''Resonance Tester'', slug = ''resonance'',
      description = ''Custom resonance testing for input shaping'',
      selected = True, category = ''Calibration & Tuning''\<rparr>,
    \<lparr>name = ''ShakeTune'', slug = ''shaketune'',
      description = ''Advanced input shaper analysis and tuning'',
      selected = True, category = ''Calibration & Tuning''\<rparr>,
    \<lparr>name = ''Cleanup Service'', slug = ''cleanup'',
      description = ''Automatic cleanup of old printer backups'',
      selected = True, category = ''System Services''\<rparr>]"



section \<open>Selection state: the methods of \<open>ComponentSelector\<close>\<close>

text \<open>\<open>get_visible_rows\<close>; the argument is the height \<open>getmaxyx\<close> reports.\<close>

definition get_visible_rows :: "int \<Rightarrow> int" where
  "get_visible_rows height = max 1 (height - 8)"

text \<open>
  \<open>toggle_current\<close>: the right-hand side reads \<open>self.components[self.current_index]\<close>
  first, so an index out of range raises before anything is written.
\<close>

definition toggle_current :: "ComponentSelector \<Rightarrow> heap \<Rightarrow> py_exception + heap" where
  "toggle_current self h =
     (case py_index (components self) (current_index self) of
        Inl e \<Rightarrow> Inl e
      | Inr r \<Rightarrow> Inr (h(r := (h r)\<lparr>selected := \<not> selected (h r)\<rparr>)))"

definition select_all :: "ComponentSelector \<Rightarrow> heap \<Rightarrow> heap" where
  "select_all self h = fold (\<lambda>r h'. h'(r := (h' r)\<lparr>selected := True\<rparr>)) (components self) h"

definition deselect_all :: "ComponentSelector \<Rightarrow> heap \<Rightarrow> heap" where
  "deselect_all self h = fold (\<lambda>r h'. h'(r := (h' r)\<lparr>selected := False\<rparr>)) (components self) h"

definition move_up :: "ComponentSelector \<Rightarrow> ComponentSelector" where
  "move_up self =
     (if current_index self > 0 then self\<lparr>current_index := current_index self - 1\<rparr> else self)"

definition move_down :: "ComponentSelector \<Rightarrow> ComponentSelector" where
  "move_down self =
     (if current_index self < int (length (components self)) - 1
      then self\<lparr>current_index := current_index self + 1\<rparr> else self)"

section \<open>Layout: the computations of \<open>draw_components\<close>\<close>

text \<open>
  A display item is the tuple \<open>("category", label, i)\<close> or \<open>("component", component, i)\<close>;
  the component of the second is the object itself, a reference.
\<close>

datatype display_item = CategoryItem string int | ComponentItem ref int

text \<open>
  The scan that builds \<open>display_items\<close>: \<open>i\<close> is the counter of \<open>enumerate\<close>,
  \<open>current_category\<close> starts as \<open>None\<close>, which no category string equals.
\<close>

fun build_display_items :: "heap \<Rightarrow> ref list \<Rightarrow> int \<Rightarrow> string option \<Rightarrow> display_item list" where
  "build_display_items h [] i current_category = []"
| "build_display_items h (component # rest) i current_category =
     (if Some (category (h component)) \<noteq> current_category
      then CategoryItem (category (h component)) i # ComponentItem component i
             # build_display_items h rest (i + 1) (Some (category (h component)))
      else ComponentItem component i # build_display_items h rest (i + 1) current_category)"

definition display_items :: "heap \<Rightarrow> ComponentSelector \<Rightarrow> display_item list" where
  "display_items h self = build_display_items h (components self) 0 None"

text \<open>
  The search for \<open>current_display_idx\<close>: the first component row whose index is
  \<open>current_index\<close>; \<open>0\<close> when the loop ends without a \<open>break\<close>.
\<close>

fun find_display_idx :: "int \<Rightarrow> display_item list \<Rightarrow> int \<Rightarrow> int" where
  "find_display_idx ci [] idx = 0"
| "find_display_idx ci (CategoryItem label i # rest) idx = find_display_idx ci rest (idx + 1)"
| "find_display_idx ci (ComponentItem component i # rest) idx =
     (if i = ci then idx else find_display_idx ci rest (idx + 1))"

text \<open>
  The state change of \<open>draw_components\<close>: the adjustment of \<open>scroll_offset\<close>. The loop
  after it only writes the visible rows to the screen; it reads \<open>display_items[idx]\<close> from
  \<open>idx = scroll_offset\<close> on, below the length of the list, so the read is in range as
  long as \<open>scroll_offset\<close> is not negative.
\<close>

definition draw_components :: "int \<Rightarrow> heap \<Rightarrow> ComponentSelector \<Rightarrow> ComponentSelector" where
  "draw_components height h self =
     (let visible_rows = get_visible_rows height;
          current_display_idx = find_display_idx (current_index self) (display_items h self) 0
      in if current_display_idx < scroll_offset self
         then self\<lparr>scroll_offset := current_display_idx\<rparr>
         else if current_display_idx \<ge> scroll_offset self + visible_rows
         then self\<lparr>scroll_offset := current_display_idx - visible_rows + 1\<rparr>
         else self)"

text \<open>
  The text of a component row at terminal width \<open>width\<close>: \<open>name_part\<close>, the width left
  for the description, the description as it is rendered, and the line written.
\<close>

definition name_part :: "SelectableComponent \<Rightarrow> string" where
  "name_part component =
     ''  '' @ (if selected component then ''[X]'' else ''[ ]'') @ '' '' @ name component"

definition available_width :: "int \<Rightarrow> SelectableComponent \<Rightarrow> int" where
  "available_width width component = width - int (length (name_part component)) - 5"

definition rendered_description :: "int \<Rightarrow> string \<Rightarrow> string" where
  "rendered_description avail desc =
     (if int (length desc) > avail then py_slice_to desc (avail - 3) @ ''...'' else desc)"

definition component_line :: "int \<Rightarrow> SelectableComponent \<Rightarrow> string" where
  "component_line width component =
     (let avail = available_width width component;
          line = (if avail > 10
                  then name_part component @ '' - ''
                         @ rendered_description avail (description component)
                  else name_part component)
      in py_slice_to line (width - 1))"

text \<open>The rows \<open>get_visible_rows\<close> reserves: its comment counts header (4) and footer (4).\<close>

definition reserved_rows :: int where
  "reserved_rows = 4 + 4"

section \<open>The input loop: \<open>run\<close>\<close>

text \<open>
  What happens at the terminal in one pass of the loop is an input of the model: the
  size \<open>getmaxyx\<close> reports, the exception raised while \<open>draw\<close> runs, if any (a curses
  error of one of its calls, or \<open>KeyboardInterrupt\<close> when the interrupt signal arrives
  then), and what \<open>getch\<close> does: it returns a key code or raises. When \<open>draw\<close> raises,
  \<open>raised_after_scroll\<close> says where: after \<open>draw_components\<close> has assigned
  \<open>scroll_offset\<close> (in its loop over the rows, in \<open>draw_footer\<close> or in \<open>refresh\<close>), or before
  (in \<open>clear\<close>, in \<open>draw_header\<close> or at the start of \<open>draw_components\<close>).
\<close>

record frame =
  getmaxyx :: "int \<times> int"
  draw_raises :: "py_exception option"
  raised_after_scroll :: bool
  getch :: "py_exception + int"

text \<open>The key codes of the curses library (the values of ncurses).\<close>

definition KEY_DOWN :: int where
  "KEY_DOWN = 258"

definition KEY_UP :: int where
  "KEY_UP = 259"

definition KEY_ENTER :: int where
  "KEY_ENTER = 343"

definition KEY_RESIZE :: int where
  "KEY_RESIZE = 410"

text \<open>
  How a call of \<open>run\<close> ends: it returns a value (\<open>None\<close> or a list of slugs), an exception
  leaves it, or it is still waiting in \<open>getch\<close> when the input ends.
\<close>

datatype outcome = Returned "string list option" | Raised py_exception | Blocked

text \<open>
  \<open>draw\<close>: of its steps only \<open>draw_components\<close> changes the selector; the writes to the
  screen are the terminal's. When an exception leaves \<open>draw\<close>, the selector is the one
  \<open>draw\<close> was called with, or the one with \<open>scroll_offset\<close> already adjusted.
\<close>

definition draw ::
  "frame \<Rightarrow> heap \<Rightarrow> ComponentSelector \<Rightarrow> (py_exception \<times> ComponentSelector) + ComponentSelector" where
  "draw f h self =
     (case draw_raises f of
        Some e \<Rightarrow>
          Inl (e, if raised_after_scroll f then draw_components (fst (getmaxyx f)) h self
                  else self)
      | None \<Rightarrow> Inr (draw_components (fst (getmaxyx f)) h self))"

text \<open>
  One pass of the body of \<open>while True\<close>. The first component of the result is \<open>None\<close>
  when the loop goes on. The characters are written as their codes:
  \<open>k\<close> 107, \<open>j\<close> 106, space 32, \<open>a\<close> 97, \<open>A\<close> 65, \<open>n\<close> 110, \<open>N\<close> 78, newline 10, \<open>q\<close> 113,
  \<open>Q\<close> 81.
\<close>

definition run_pass ::
  "frame \<Rightarrow> heap \<Rightarrow> ComponentSelector \<Rightarrow> outcome option \<times> heap \<times> ComponentSelector" where
  "run_pass f h self0 =
     (case draw f h self0 of
        Inl (e, self) \<Rightarrow> (Some (Raised e), h, self)
      | Inr self \<Rightarrow>
          (case getch f of
             Inl e \<Rightarrow>
               if e = KeyboardInterrupt
               then (Some (Returned None), h, self\<lparr>cancelled := True\<rparr>)
               else (Some (Raised e), h, self)
           | Inr key \<Rightarrow>
               if key = KEY_UP \<or> key = 107 then (None, h, move_up self)
               else if key = KEY_DOWN \<or> key = 106 then (None, h, move_down self)
               else if key = 32 then
                 (case toggle_current self h of
                    Inl e \<Rightarrow> (Some (Raised e), h, self)
                  | Inr h' \<Rightarrow> (None, h', self))
               else if key = 97 \<or> key = 65 then (None, select_all self h, self)
               else if key = 110 \<or> key = 78 then (None, deselect_all self h, self)
               else if key = 10 \<or> key = KEY_ENTER \<or> key = 10 \<or> key = 13 then
                 (Some (Returned (Some (map (\<lambda>c. slug (h c))
                                          (filter (\<lambda>c. selected (h c)) (components self))))),
                  h, self)
               else if key = 113 \<or> key = 81 \<or> key = 27 then
                 (Some (Returned None), h, self\<lparr>cancelled := True\<rparr>)
               else if key = KEY_RESIZE then (None, h, self)
               else (None, h, self)))"

fun run :: "frame list \<Rightarrow> heap \<Rightarrow> ComponentSelector \<Rightarrow> outcome \<times> heap \<times> ComponentSelector" where
  "run [] h self = (Blocked, h, self)"
| "run (f # fs) h self =
     (case run_pass f h self of
        (Some result, h', self') \<Rightarrow> (result, h', self')
      | (None, h', self') \<Rightarrow> run fs h' self')"

section \<open>The entry points\<close>

text \<open>Creating a \<open>SelectableComponent\<close> object: a fresh address of the store.\<close>

definition new_component :: "SelectableComponent \<Rightarrow> store \<Rightarrow> ref \<times> store" where
  "new_component v st =
     (next_ref st, \<lparr>objs = (objs st)(next_ref st := v), next_ref = Suc (next_ref st)\<rparr>)"

text \<open>The list comprehension of \<open>run_selector\<close>: one new object per entry of the table.\<close>

fun copy_components :: "ref list \<Rightarrow> store \<Rightarrow> ref list \<times> store" where
  "copy_components [] st = ([], st)"
| "copy_components (c # cs) st =
     (let (r, st1) = new_component
                       \<lparr>name = name (objs st c), slug = slug (objs st c),
                        description = description (objs st c),
                        selected = selected (objs st c),
                        category = category (objs st c)\<rparr> st;
          (rs, st2) = copy_components cs st1
      in (r # rs, st2))"

text \<open>The assignments of \<open>ComponentSelector.__init__\<close>.\<close>

definition init_selector :: "ref list \<Rightarrow> ComponentSelector" where
  "init_selector cs = \<lparr>components = cs, current_index = 0, scroll_offset = 0, cancelled = False\<rparr>"

text \<open>
  The terminal over a whole session: the exception raised while \<open>curses.wrapper\<close>
  initialises the terminal, if any, the exception raised while the curses calls of
  \<open>ComponentSelector.__init__\<close> run, if any, and the passes of the loop.
\<close>

record terminal =
  wrapper_raises :: "py_exception option"
  init_raises :: "py_exception option"
  frames :: "frame list"

text \<open>\<open>run_selector\<close>; the first argument is the value of the global \<open>COMPONENT_DEFINITIONS\<close>.\<close>

definition run_selector :: "ref list \<Rightarrow> terminal \<Rightarrow> store \<Rightarrow> outcome \<times> store" where
  "run_selector defs t st =
     (let (cs, st1) = copy_components defs st
      in case init_raises t of
           Some e \<Rightarrow> (Raised e, st1)
         | None \<Rightarrow>
             (let (result, h, self) = run (frames t) (objs st1) (init_selector cs)
              in (result, st1\<lparr>objs := h\<rparr>)))"

text \<open>
  \<open>curses.wrapper(run_selector)\<close>: it sets the terminal up, calls the function and
  restores the terminal whatever the call does; an exception of the call goes through.
\<close>

definition curses_wrapper :: "ref list \<Rightarrow> terminal \<Rightarrow> store \<Rightarrow> outcome \<times> store" where
  "curses_wrapper defs t st =
     (case wrapper_raises t of
        Some e \<Rightarrow> (Raised e, st)
      | None \<Rightarrow> run_selector defs t st)"

text \<open>\<open>select_components\<close>: \<open>except Exception\<close> catches the instances of \<open>Exception\<close>.\<close>

definition select_components :: "ref list \<Rightarrow> terminal \<Rightarrow> store \<Rightarrow> outcome \<times> store" where
  "select_components defs t st =
     (case curses_wrapper defs t st of
        (Raised e, st') \<Rightarrow> if is_Exception e then (Returned None, st') else (Raised e, st')
      | (result, st') \<Rightarrow> (result, st'))"

section \<open>The display items, as the specification words them\<close>

text \<open>
  The specification's rule for the display items: scanning the catalog once, a
  category header is emitted at a position when it is the first one or when the category
  there differs from the category of the position just before it; a component row is
  emitted at every position.
\<close>

definition header_at :: "heap \<Rightarrow> ref list \<Rightarrow> nat \<Rightarrow> bool" where
  "header_at h cs p = (p = 0 \<or> category (h (cs ! p)) \<noteq> category (h (cs ! (p - 1))))"

definition display_spec :: "heap \<Rightarrow> ref list \<Rightarrow> display_item list" where
  "display_spec h cs =
     concat (map (\<lambda>p. (if header_at h cs p
                        then [CategoryItem (category (h (cs ! p))) (int p)] else [])
                       @ [ComponentItem (cs ! p) (int p)])
                 [0 ..< length cs])"

section \<open>Notions used in the proofs\<close>

text \<open>
  The items the scan of \<open>build_display_items\<close> emits at position \<open>p\<close> of the list it is
  given, when it starts at the counter \<open>i\<close> with \<open>current_category = cur\<close>.
\<close>

definition scan_row :: "heap \<Rightarrow> ref list \<Rightarrow> int \<Rightarrow> string option \<Rightarrow> nat \<Rightarrow> display_item list" where
  "scan_row h cs i cur p =
     (if (if p = 0 then Some (category (h (cs ! 0))) \<noteq> cur
          else category (h (cs ! p)) \<noteq> category (h (cs ! (p - 1))))
      then [CategoryItem (category (h (cs ! p))) (i + int p)] else [])
     @ [ComponentItem (cs ! p) (i + int p)]"

text \<open>
  The test of the search loop for \<open>current_display_idx\<close>:
  \<open>item[0] == "component" and item[2] == self.current_index\<close>.
\<close>

fun row_of :: "int \<Rightarrow> display_item \<Rightarrow> bool" where
  "row_of ci (CategoryItem label i) = False"
| "row_of ci (ComponentItem component i) = (i = ci)"

text \<open>
  The relation between the store before and after some steps of a selector whose
  catalog is \<open>cs\<close>: an object outside the catalog is as it was, and an object of the
  catalog differs from what it was in its \<open>selected\<close> flag at most.
\<close>

definition only_selected_changed :: "ref list \<Rightarrow> heap \<Rightarrow> heap \<Rightarrow> bool" where
  "only_selected_changed cs h h' =
     (\<forall>r. (r \<notin> set cs \<longrightarrow> h' r = h r) \<and> (\<exists>b. h' r = (h r)\<lparr>selected := b\<rparr>))"

section \<open>A small catalog for worked examples\<close>

text \<open>
  Three components \<open>A\<close>, \<open>B\<close>, \<open>C\<close> at the addresses 0, 1, 2: \<open>A\<close> and \<open>B\<close> in category
  \<open>X\<close>, \<open>C\<close> in category \<open>Y\<close>; \<open>A\<close> and \<open>C\<close> selected.
\<close>

definition scenario_heap :: heap where
  "scenario_heap =
     (\<lambda>r. if r = 0 then \<lparr>name = ''A'', slug = ''A'', description = ''first'',
                           selected = True, category = ''X''\<rparr>
          else if r = 1 then \<lparr>name = ''B'', slug = ''B'', description = ''second'',
                                selected = False, category = ''X''\<rparr>
          else \<lparr>name = ''C'', slug = ''C'', description = ''third'',
                 selected = True, category = ''Y''\<rparr>)"

definition scenario_selector :: ComponentSelector where
  "scenario_selector = init_selector [0, 1, 2]"

text \<open>The small catalog with the categories \<open>X\<close>, \<open>Y\<close>, \<open>X\<close>.\<close>

definition interleaved_heap :: heap where
  "interleaved_heap = (\<lambda>r. (scenario_heap r)\<lparr>category := (if r = 1 then ''Y'' else ''X'')\<rparr>)"

text \<open>A pass of the loop on an 80x24 terminal in which \<open>getch\<close> returns the key.\<close>

definition key_frame :: "int \<Rightarrow> frame" where
  "key_frame key =
     \<lparr>getmaxyx = (24, 80), draw_raises = None, raised_after_scroll = False, getch = Inr key\<rparr>"

text \<open>The entry \<open>Macros Only\<close> of the component table.\<close>

definition macros_only :: SelectableComponent where
  "macros_only = \<lparr>name = ''Macros Only'', slug = ''macros_only'',
      description = ''Install only macros.cfg'',
      selected = False, category = ''Macros & Configuration''\<rparr>"

text \<open>A pass on an 80x24 terminal in which the interrupt signal arrives during \<open>getch\<close>.\<close>

definition interrupt_frame :: frame where
  "interrupt_frame =
     \<lparr>getmaxyx = (24, 80), draw_raises = None, raised_after_scroll = False,
      getch = Inl KeyboardInterrupt\<rparr>"

text \<open>The small catalog as a store, and a terminal that delivers the given keys.\<close>

definition scenario_store :: store where
  "scenario_store = \<lparr>objs = scenario_heap, next_ref = 3\<rparr>"

definition key_terminal :: "int list \<Rightarrow> terminal" where
  "key_terminal keys = \<lparr>wrapper_raises = None, init_raises = None, frames = map key_frame keys\<rparr>"






section \<open>Properties of the selection state\<close>

subsection \<open>Viewport height\<close>

text \<open>
  C8. For every terminal height \<open>H\<close> the viewport height is \<open>max(1, H - reserved_rows)\<close>:
  it is at least 1 for every \<open>H\<close>, it is 1 on an undersized terminal, where
  \<open>H - reserved_rows\<close> is zero or negative, and it is \<open>H - reserved_rows\<close> otherwise.
\<close>

theorem get_visible_rows_clamped:
  "get_visible_rows H = max 1 (H - reserved_rows)
   \<and> 1 \<le> get_visible_rows H
   \<and> (H - reserved_rows \<le> 0 \<longrightarrow> get_visible_rows H = 1)
   \<and> (H - reserved_rows \<ge> 1 \<longrightarrow> get_visible_rows H = H - reserved_rows)"
  by (simp add: get_visible_rows_def reserved_rows_def)

theorem get_visible_rows_clamped_witness:
  "(5::int) - reserved_rows \<le> 0 \<and> get_visible_rows 5 = 1
   \<and> (24::int) - reserved_rows \<ge> 1 \<and> get_visible_rows 24 = 16
   \<and> get_visible_rows (-3) = 1"
  using get_visible_rows_clamped [of 5] get_visible_rows_clamped [of 24]
    get_visible_rows_clamped [of "-3"]
  by (simp add: reserved_rows_def)

subsection \<open>Cursor movement\<close>

lemma move_up_components [simp]: "components (move_up s) = components s"
  by (simp add: move_up_def)

lemma move_down_components [simp]: "components (move_down s) = components s"
  by (simp add: move_down_def)

lemma move_up_in_range:
  "0 \<le> current_index s \<Longrightarrow> current_index s \<le> int (length (components s)) - 1 \<Longrightarrow>
   0 \<le> current_index (move_up s) \<and> current_index (move_up s) \<le> int (length (components s)) - 1"
  unfolding move_up_def by (cases "current_index s > 0") simp_all

lemma move_down_in_range:
  "0 \<le> current_index s \<Longrightarrow> current_index s \<le> int (length (components s)) - 1 \<Longrightarrow>
   0 \<le> current_index (move_down s)
   \<and> current_index (move_down s) \<le> int (length (components s)) - 1"
  unfolding move_down_def by (cases "current_index s < int (length (components s)) - 1") simp_all

lemma moves_in_range:
  "set ops \<subseteq> {move_up, move_down} \<Longrightarrow>
   0 \<le> current_index s \<Longrightarrow> current_index s \<le> int (length (components s)) - 1 \<Longrightarrow>
   components (fold (\<lambda>op t. op t) ops s) = components s
   \<and> 0 \<le> current_index (fold (\<lambda>op t. op t) ops s)
   \<and> current_index (fold (\<lambda>op t. op t) ops s) \<le> int (length (components s)) - 1"
proof (induction ops arbitrary: s)
  case Nil
  then show ?case by simp
next
  case (Cons op ops)
  from Cons.prems(1) have op: "op = move_up \<or> op = move_down" and rest: "set ops \<subseteq> {move_up, move_down}"
    by auto
  from op have comps: "components (op s) = components s"
    by auto
  from op Cons.prems(2,3)
  have "0 \<le> current_index (op s) \<and> current_index (op s) \<le> int (length (components s)) - 1"
    using move_up_in_range [of s] move_down_in_range [of s] by auto
  with Cons.IH [OF rest, of "op s"] comps show ?case
    by simp
qed

text \<open>
  C3. On a catalog of at least one component, from \<open>current_index = 0\<close>, every sequence
  of \<open>move_up\<close> and \<open>move_down\<close> leaves \<open>current_index\<close> within \<open>[0, len - 1]\<close>. In the
  state reached, a move changes the index to the clamped neighbour (no wraparound), and
  \<open>move_up\<close> at index \<open>0\<close> and \<open>move_down\<close> at index \<open>len - 1\<close> return the state as it is.
\<close>

theorem moves_keep_cursor_in_catalog:
  assumes "components self \<noteq> []"
    and "current_index self = 0"
    and "set ops \<subseteq> {move_up, move_down}"
    and "s = fold (\<lambda>op t. op t) ops self"
    and "n = int (length (components self))"
  shows "0 \<le> current_index s \<and> current_index s \<le> n - 1
    \<and> components s = components self
    \<and> current_index (move_up s) = max 0 (current_index s - 1)
    \<and> current_index (move_down s) = min (n - 1) (current_index s + 1)
    \<and> (current_index s = 0 \<longrightarrow> move_up s = s)
    \<and> (current_index s = n - 1 \<longrightarrow> move_down s = s)"
proof -
  from assms(1) have "0 \<le> int (length (components self)) - 1"
    by (cases "components self") simp_all
  with assms(2) have start: "0 \<le> current_index self"
    "current_index self \<le> int (length (components self)) - 1"
    by simp_all
  from moves_in_range [OF assms(3) start] assms(4,5)
  have range: "components s = components self" "0 \<le> current_index s" "current_index s \<le> n - 1"
    by simp_all
  from range(1) assms(5) have len: "int (length (components s)) = n"
    by simp
  from range(2) have up: "current_index (move_up s) = max 0 (current_index s - 1)"
    unfolding move_up_def by (auto simp: max_def)
  from range(3) have down: "current_index (move_down s) = min (n - 1) (current_index s + 1)"
    unfolding move_down_def len by (auto simp: min_def)
  have up0: "current_index s = 0 \<longrightarrow> move_up s = s"
    unfolding move_up_def by simp
  have down0: "current_index s = n - 1 \<longrightarrow> move_down s = s"
    unfolding move_down_def len by simp
  from range up down up0 down0 show ?thesis
    by simp
qed

theorem moves_keep_cursor_in_catalog_witness:
  "components scenario_selector \<noteq> []
   \<and> current_index scenario_selector = 0
   \<and> set [move_down, move_down, move_down, move_up] \<subseteq> {move_up, move_down}
   \<and> fold (\<lambda>op t. op t) [move_down, move_down, move_down, move_up] scenario_selector
       = scenario_selector\<lparr>current_index := 1\<rparr>
   \<and> 0 \<le> current_index (scenario_selector\<lparr>current_index := 1\<rparr>)
   \<and> current_index (scenario_selector\<lparr>current_index := 1\<rparr>) \<le> 3 - 1
   \<and> current_index (move_up (scenario_selector\<lparr>current_index := 1\<rparr>)) = 0
   \<and> current_index (move_down (scenario_selector\<lparr>current_index := 1\<rparr>)) = 2"
proof -
  have h1: "components scenario_selector \<noteq> []"
    by (simp add: scenario_selector_def init_selector_def)
  have h2: "current_index scenario_selector = 0"
    by (simp add: scenario_selector_def init_selector_def)
  have h3: "set [move_down, move_down, move_down, move_up] \<subseteq> {move_up, move_down}"
    by simp
  have h4: "scenario_selector\<lparr>current_index := 1\<rparr>
      = fold (\<lambda>op t. op t) [move_down, move_down, move_down, move_up] scenario_selector"
    by (simp add: scenario_selector_def init_selector_def move_up_def move_down_def)
  have h5: "(3::int) = int (length (components scenario_selector))"
    by (simp add: scenario_selector_def init_selector_def)
  from moves_keep_cursor_in_catalog [OF h1 h2 h3 h4 h5] h1 h2 h3 h4 [symmetric] show ?thesis
    by simp
qed

subsection \<open>Toggling the current component\<close>

lemma py_index_in_range:
  "0 \<le> i \<Longrightarrow> i < int (length xs) \<Longrightarrow> py_index xs i = Inr (xs ! nat i)"
  by (simp add: py_index_def)

text \<open>
  C5. With \<open>current_index\<close> inside the catalog, \<open>toggle_current\<close> succeeds, and applying it
  again at the same index gives back the store it started from. One application negates
  the \<open>selected\<close> flag of the component at \<open>current_index\<close> and keeps its other fields; every
  other object of the store is as before, and so is every other row of a catalog whose
  rows are distinct objects. The method does not write to the selector: its result is a
  store only.
\<close>

theorem toggle_current_twice_restores:
  assumes "0 \<le> current_index self"
    and "current_index self < int (length (components self))"
    and "target = components self ! nat (current_index self)"
  shows "\<exists>h'. toggle_current self h = Inr h'
      \<and> toggle_current self h' = Inr h
      \<and> selected (h' target) = (\<not> selected (h target))
      \<and> name (h' target) = name (h target)
      \<and> slug (h' target) = slug (h target)
      \<and> description (h' target) = description (h target)
      \<and> category (h' target) = category (h target)
      \<and> (\<forall>r. r \<noteq> target \<longrightarrow> h' r = h r)
      \<and> (distinct (components self) \<longrightarrow>
           (\<forall>j < length (components self). int j \<noteq> current_index self \<longrightarrow>
              h' (components self ! j) = h (components self ! j)))"
proof -
  from assms have idx: "py_index (components self) (current_index self) = Inr target"
    by (simp add: py_index_in_range)
  define h' where "h' = h(target := (h target)\<lparr>selected := \<not> selected (h target)\<rparr>)"
  from idx have once: "toggle_current self h = Inr h'"
    by (simp add: toggle_current_def h'_def)
  have undo: "h'(target := (h' target)\<lparr>selected := \<not> selected (h' target)\<rparr>) = h"
    by (rule ext) (simp add: h'_def)
  from idx undo have twice: "toggle_current self h' = Inr h"
    by (simp add: toggle_current_def)
  have fields: "selected (h' target) = (\<not> selected (h target))"
    "name (h' target) = name (h target)" "slug (h' target) = slug (h target)"
    "description (h' target) = description (h target)"
    "category (h' target) = category (h target)"
    by (simp_all add: h'_def)
  have others: "\<forall>r. r \<noteq> target \<longrightarrow> h' r = h r"
    by (simp add: h'_def)
  have rows: "distinct (components self) \<longrightarrow>
      (\<forall>j < length (components self). int j \<noteq> current_index self \<longrightarrow>
         h' (components self ! j) = h (components self ! j))"
  proof (intro impI allI)
    fix j
    assume d: "distinct (components self)" and j: "j < length (components self)"
      and ne: "int j \<noteq> current_index self"
    from assms(1,2) have k: "nat (current_index self) < length (components self)"
      by simp
    from ne assms(1) have "j \<noteq> nat (current_index self)"
      by auto
    with d j k have "components self ! j \<noteq> target"
      unfolding assms(3) by (simp add: nth_eq_iff_index_eq)
    with others show "h' (components self ! j) = h (components self ! j)"
      by simp
  qed
  from once twice fields others rows show ?thesis
    by blast
qed

theorem toggle_current_twice_restores_witness:
  "0 \<le> current_index (scenario_selector\<lparr>current_index := 1\<rparr>)
   \<and> current_index (scenario_selector\<lparr>current_index := 1\<rparr>) < int (length (components scenario_selector))
   \<and> (\<exists>h'. toggle_current (scenario_selector\<lparr>current_index := 1\<rparr>) scenario_heap = Inr h'
        \<and> toggle_current (scenario_selector\<lparr>current_index := 1\<rparr>) h' = Inr scenario_heap
        \<and> selected (h' 1) \<and> h' 0 = scenario_heap 0 \<and> h' 2 = scenario_heap 2)"
proof -
  let ?s = "scenario_selector\<lparr>current_index := 1\<rparr>"
  have h1: "0 \<le> current_index ?s"
    by simp
  have h2: "current_index ?s < int (length (components ?s))"
    by (simp add: scenario_selector_def init_selector_def)
  have h3: "(1::nat) = components ?s ! nat (current_index ?s)"
    by (simp add: scenario_selector_def init_selector_def)
  have sel: "\<not> selected (scenario_heap 1)"
    by (simp add: scenario_heap_def)
  from toggle_current_twice_restores [OF h1 h2 h3, of scenario_heap] sel
  obtain h' where "toggle_current ?s scenario_heap = Inr h'"
    "toggle_current ?s h' = Inr scenario_heap" "selected (h' 1)"
    "\<forall>r. r \<noteq> 1 \<longrightarrow> h' r = scenario_heap r"
    by auto
  then have "toggle_current ?s scenario_heap = Inr h'
        \<and> toggle_current ?s h' = Inr scenario_heap
        \<and> selected (h' 1) \<and> h' 0 = scenario_heap 0 \<and> h' 2 = scenario_heap 2"
    by simp
  with h1 h2 show ?thesis
    by (simp add: scenario_selector_def init_selector_def)
qed

section \<open>Properties of the layout\<close>

subsection \<open>The text of a component row\<close>

lemma rendered_description_long:
  assumes "3 \<le> B" and "int (length desc) > B"
  shows "rendered_description B desc = take (nat (B - 3)) desc @ ''...''"
    and "int (length (rendered_description B desc)) = B"
proof -
  from assms show eq: "rendered_description B desc = take (nat (B - 3)) desc @ ''...''"
    by (simp add: rendered_description_def py_slice_to_def)
  from assms have "min (length desc) (nat (B - 3)) = nat (B - 3)"
    by simp
  with assms(1) show "int (length (rendered_description B desc)) = B"
    unfolding eq by simp
qed

lemma rendered_description_short:
  "int (length desc) \<le> B \<Longrightarrow> rendered_description B desc = desc"
  by (simp add: rendered_description_def)

lemma component_line_with_description:
  assumes "available_width width component > 10"
    and "int (length (rendered_description (available_width width component)
                        (description component))) \<le> available_width width component"
  shows "component_line width component
       = name_part component @ '' - ''
           @ rendered_description (available_width width component) (description component)"
proof -
  let ?line = "name_part component @ '' - ''
           @ rendered_description (available_width width component) (description component)"
  from assms(2) have "int (length ?line) \<le> width - 1"
    by (simp add: available_width_def)
  moreover from assms(1) have "0 \<le> width - 1"
    by (simp add: available_width_def)
  ultimately have "py_slice_to ?line (width - 1) = ?line"
    by (simp add: py_slice_to_def)
  with assms(1) show ?thesis
    by (simp add: component_line_def Let_def)
qed

text \<open>
  C7, as the code has it. Let \<open>B\<close> be the width left for the description of a row. When
  \<open>B\<close> is above the threshold 10 and the description is longer than \<open>B\<close>, the rendered
  description is its first \<open>B - 3\<close> characters followed by \<open>...\<close>, exactly \<open>B\<close> characters,
  and the row shows it in full. When \<open>B\<close> is above the threshold and the description has at
  most \<open>B\<close> characters, it is rendered unchanged. When \<open>B\<close> is at most 10 the row is the
  checkbox and the name only, cut to the terminal width.
\<close>

theorem description_rendering:
  assumes "B = available_width width component"
    and "desc = description component"
  shows "(10 < B \<and> B < int (length desc) \<longrightarrow>
            rendered_description B desc = take (nat (B - 3)) desc @ ''...''
            \<and> int (length (rendered_description B desc)) = B
            \<and> component_line width component
                = name_part component @ '' - '' @ take (nat (B - 3)) desc @ ''...'')
       \<and> (10 < B \<and> int (length desc) \<le> B \<longrightarrow>
            rendered_description B desc = desc
            \<and> component_line width component = name_part component @ '' - '' @ desc)
       \<and> (B \<le> 10 \<longrightarrow>
            component_line width component = py_slice_to (name_part component) (width - 1))"
proof (intro conjI impI)
  assume long: "10 < B \<and> B < int (length desc)"
  then have b3: "3 \<le> B" and len: "int (length desc) > B"
    by simp_all
  show eq: "rendered_description B desc = take (nat (B - 3)) desc @ ''...''"
    by (rule rendered_description_long(1) [OF b3 len])
  show fit: "int (length (rendered_description B desc)) = B"
    by (rule rendered_description_long(2) [OF b3 len])
  from long fit assms
  have "component_line width component
      = name_part component @ '' - '' @ rendered_description B desc"
    using component_line_with_description [of width component] by simp
  with eq show "component_line width component
      = name_part component @ '' - '' @ take (nat (B - 3)) desc @ ''...''"
    by simp
next
  assume short: "10 < B \<and> int (length desc) \<le> B"
  then show same: "rendered_description B desc = desc"
    by (simp add: rendered_description_short)
  from short same assms
  show "component_line width component = name_part component @ '' - '' @ desc"
    using component_line_with_description [of width component] by simp
next
  assume "B \<le> 10"
  with assms(1) show "component_line width component
      = py_slice_to (name_part component) (width - 1)"
    by (simp add: component_line_def Let_def)
qed

lemma macros_only_in_table: "COMPONENT_DEFINITIONS ! 6 = macros_only"
  by (simp add: COMPONENT_DEFINITIONS_def macros_only_def)

lemma macros_only_name_part: "name_part macros_only = ''  [ ] Macros Only''"
  by (simp add: name_part_def macros_only_def)

theorem description_rendering_witness:
  "available_width 40 macros_only = 18
   \<and> 18 < int (length (description macros_only))
   \<and> component_line 40 macros_only = ''  [ ] Macros Only - Install only ma...''
   \<and> available_width 70 macros_only = 48
   \<and> int (length (description macros_only)) \<le> 48
   \<and> component_line 70 macros_only = ''  [ ] Macros Only - Install only macros.cfg''
   \<and> available_width 30 macros_only = 8
   \<and> component_line 30 macros_only = ''  [ ] Macros Only''"
proof -
  have a: "available_width 40 macros_only = 18" "available_width 70 macros_only = 48"
    "available_width 30 macros_only = 8"
    by (simp_all add: available_width_def macros_only_name_part)
  have d: "description macros_only = ''Install only macros.cfg''"
    by (simp add: macros_only_def)
  from description_rendering [of 18 40 macros_only "description macros_only"]
    description_rendering [of 48 70 macros_only "description macros_only"]
    description_rendering [of 8 30 macros_only "description macros_only"]
  show ?thesis
    unfolding a d macros_only_name_part by (simp add: py_slice_to_def)
qed

text \<open>
  The row of \<open>Macros Only\<close> on a terminal 47 columns wide: the budget is 25, the
  description has 23 characters, more than \<open>B - 3 = 22\<close>, and it is rendered unchanged:
  23 characters, no ellipsis.
\<close>

theorem description_truncation_counterexample:
  "available_width 47 macros_only = 25
   \<and> 25 - 3 < int (length (description macros_only))
   \<and> rendered_description 25 (description macros_only) = ''Install only macros.cfg''
   \<and> length (rendered_description 25 (description macros_only)) = 23
   \<and> length (rendered_description 25 (description macros_only)) \<noteq> 25
   \<and> component_line 47 macros_only = ''  [ ] Macros Only - Install only macros.cfg''"
proof -
  have a: "available_width 47 macros_only = 25"
    by (simp add: available_width_def macros_only_name_part)
  have d: "description macros_only = ''Install only macros.cfg''"
    by (simp add: macros_only_def)
  have r: "rendered_description 25 ''Install only macros.cfg'' = ''Install only macros.cfg''"
    by (simp add: rendered_description_def)
  have l: "component_line 47 macros_only = ''  [ ] Macros Only - Install only macros.cfg''"
    unfolding component_line_def a d r macros_only_name_part Let_def
    by (simp add: py_slice_to_def)
  from a r l show ?thesis
    unfolding d by simp
qed

subsection \<open>The display items\<close>

lemma scan_row_Suc:
  "scan_row h (c # rest) i cur (Suc q) = scan_row h rest (i + 1) (Some (category (h c))) q"
  by (cases q) (simp_all add: scan_row_def)

lemma build_display_items_scan:
  "build_display_items h cs i cur = concat (map (scan_row h cs i cur) [0 ..< length cs])"
proof (induction cs arbitrary: i cur)
  case Nil
  show ?case by simp
next
  case (Cons c rest)
  have upt: "[0 ..< length (c # rest)] = 0 # map Suc [0 ..< length rest]"
    by (simp add: upt_conv_Cons map_Suc_upt del: upt_Suc)
  have tl: "map (scan_row h (c # rest) i cur) (map Suc [0 ..< length rest])
      = map (scan_row h rest (i + 1) (Some (category (h c)))) [0 ..< length rest]"
    by (simp add: scan_row_Suc comp_def)
  have hd0: "scan_row h (c # rest) i cur 0
      = (if Some (category (h c)) \<noteq> cur then [CategoryItem (category (h c)) i] else [])
        @ [ComponentItem c i]"
    by (simp add: scan_row_def)
  have "build_display_items h (c # rest) i cur
      = scan_row h (c # rest) i cur 0
        @ build_display_items h rest (i + 1) (Some (category (h c)))"
    unfolding hd0 by simp
  also have "\<dots> = scan_row h (c # rest) i cur 0
        @ concat (map (scan_row h (c # rest) i cur) (map Suc [0 ..< length rest]))"
    unfolding tl Cons.IH ..
  also have "\<dots> = concat (map (scan_row h (c # rest) i cur) [0 ..< length (c # rest)])"
    unfolding upt by simp
  finally show ?case .
qed

lemma scan_row_spec: "scan_row h cs 0 None p =
    (if header_at h cs p then [CategoryItem (category (h (cs ! p))) (int p)] else [])
    @ [ComponentItem (cs ! p) (int p)]"
  by (simp add: scan_row_def header_at_def)

lemma display_items_eq_spec: "display_items h self = display_spec h (components self)"
proof -
  have "scan_row h (components self) 0 None
      = (\<lambda>p. (if header_at h (components self) p
                then [CategoryItem (category (h (components self ! p))) (int p)] else [])
               @ [ComponentItem (components self ! p) (int p)])"
    by (rule ext) (rule scan_row_spec)
  then show ?thesis
    unfolding display_items_def display_spec_def build_display_items_scan by simp
qed

lemma header_in_display_spec:
  assumes "p < length cs" and "header_at h cs p"
  shows "CategoryItem (category (h (cs ! p))) (int p) \<in> set (display_spec h cs)"
proof -
  from assms(1) have "p \<in> set [0 ..< length cs]"
    by simp
  with assms(2) show ?thesis
    unfolding display_spec_def set_concat set_map by (intro UN_I) auto
qed

lemma row_in_display_spec:
  assumes "p < length cs"
  shows "ComponentItem (cs ! p) (int p) \<in> set (display_spec h cs)"
proof -
  from assms have "p \<in> set [0 ..< length cs]"
    by simp
  then show ?thesis
    unfolding display_spec_def set_concat set_map by (intro UN_I) auto
qed

lemma category_run_start:
  "j < length cs \<Longrightarrow> category (h (cs ! j)) = X \<Longrightarrow>
   \<exists>q \<le> j. header_at h cs q \<and> category (h (cs ! q)) = X
     \<and> (\<forall>m. q \<le> m \<and> m \<le> j \<longrightarrow> category (h (cs ! m)) = X)"
proof (induction j)
  case 0
  then show ?case
    by (intro exI [of _ 0]) (simp add: header_at_def)
next
  case (Suc j)
  show ?case
  proof (cases "category (h (cs ! j)) = X")
    case False
    with Suc.prems have "header_at h cs (Suc j)"
      by (simp add: header_at_def)
    with Suc.prems show ?thesis
      by (intro exI [of _ "Suc j"]) (auto simp: le_Suc_eq)
  next
    case True
    from Suc.prems have "j < length cs"
      by simp
    from Suc.IH [OF this True] obtain q where q: "q \<le> j" "header_at h cs q"
      "category (h (cs ! q)) = X" "\<forall>m. q \<le> m \<and> m \<le> j \<longrightarrow> category (h (cs ! m)) = X"
      by blast
    with Suc.prems(2) have "\<forall>m. q \<le> m \<and> m \<le> Suc j \<longrightarrow> category (h (cs ! m)) = X"
      by (auto simp: le_Suc_eq)
    with q show ?thesis
      by (intro exI [of _ q]) simp
  qed
qed

text \<open>
  C6. The display items \<open>draw_components\<close> builds are the ones of the specification's
  rule: a single scan that emits a category header at a position exactly when it is the
  first or its category differs from the one just before, and a component row at every
  position. So every component has its row, every such position has its header, and when
  two entries \<open>i < j\<close> of one category are separated by an entry \<open>k\<close> of another, that
  category has two headers: one at or before \<open>i\<close>, one after \<open>k\<close>.
\<close>

theorem display_items_adjacent_headers:
  assumes "items = display_items h self" and "cs = components self"
  shows "items = display_spec h cs
    \<and> (\<forall>p < length cs. ComponentItem (cs ! p) (int p) \<in> set items)
    \<and> (\<forall>p < length cs. header_at h cs p \<longrightarrow>
          CategoryItem (category (h (cs ! p))) (int p) \<in> set items)
    \<and> (\<forall>i k j. i < k \<and> k < j \<and> j < length cs
          \<and> category (h (cs ! i)) = category (h (cs ! j))
          \<and> category (h (cs ! k)) \<noteq> category (h (cs ! j)) \<longrightarrow>
          (\<exists>p q. p \<le> i \<and> k < q \<and> q \<le> j
             \<and> CategoryItem (category (h (cs ! j))) (int p) \<in> set items
             \<and> CategoryItem (category (h (cs ! j))) (int q) \<in> set items))"
proof -
  from assms have eq: "items = display_spec h cs"
    by (simp add: display_items_eq_spec)
  have rows: "\<forall>p < length cs. ComponentItem (cs ! p) (int p) \<in> set items"
    unfolding eq by (simp add: row_in_display_spec)
  have heads: "\<forall>p < length cs. header_at h cs p \<longrightarrow>
      CategoryItem (category (h (cs ! p))) (int p) \<in> set items"
    unfolding eq by (simp add: header_in_display_spec)
  have twice: "\<exists>p q. p \<le> i \<and> k < q \<and> q \<le> j
      \<and> CategoryItem (category (h (cs ! j))) (int p) \<in> set items
      \<and> CategoryItem (category (h (cs ! j))) (int q) \<in> set items"
    if sep: "i < k \<and> k < j \<and> j < length cs
      \<and> category (h (cs ! i)) = category (h (cs ! j))
      \<and> category (h (cs ! k)) \<noteq> category (h (cs ! j))" for i k j
  proof -
    let ?X = "category (h (cs ! j))"
    from sep have i: "i < length cs" "category (h (cs ! i)) = ?X" and j: "j < length cs"
      by simp_all
    from category_run_start [of i cs h ?X, OF i] obtain p where p: "p \<le> i" "header_at h cs p"
      "category (h (cs ! p)) = ?X"
      by blast
    from category_run_start [of j cs h ?X, OF j refl] obtain q where q: "q \<le> j" "header_at h cs q"
      "category (h (cs ! q)) = ?X" "\<forall>m. q \<le> m \<and> m \<le> j \<longrightarrow> category (h (cs ! m)) = ?X"
      by blast
    from q(4) sep have kq: "k < q"
      by (metis not_le_imp_less less_imp_le)
    from p(1) i(1) have "p < length cs"
      by simp
    with heads p have inp: "CategoryItem ?X (int p) \<in> set items"
      by metis
    from q(1) j have "q < length cs"
      by simp
    with heads q have inq: "CategoryItem ?X (int q) \<in> set items"
      by metis
    from p(1) kq q(1) inp inq show ?thesis
      by blast
  qed
  from eq rows heads twice show ?thesis
    by blast
qed

theorem display_items_adjacent_headers_witness:
  "display_items interleaved_heap scenario_selector
     = [CategoryItem ''X'' 0, ComponentItem 0 0, CategoryItem ''Y'' 1, ComponentItem 1 1,
        CategoryItem ''X'' 2, ComponentItem 2 2]
   \<and> category (interleaved_heap 0) = category (interleaved_heap 2)
   \<and> category (interleaved_heap 1) \<noteq> category (interleaved_heap 2)
   \<and> (\<exists>p q. p \<le> (0::nat) \<and> (1::nat) < q \<and> q \<le> 2
        \<and> CategoryItem ''X'' (int p) \<in> set (display_items interleaved_heap scenario_selector)
        \<and> CategoryItem ''X'' (int q) \<in> set (display_items interleaved_heap scenario_selector))"
proof -
  have cs: "components scenario_selector = [0, 1, 2]"
    by (simp add: scenario_selector_def init_selector_def)
  have cat: "category (interleaved_heap 0) = ''X''" "category (interleaved_heap 1) = ''Y''"
    "category (interleaved_heap 2) = ''X''" "category (interleaved_heap (Suc 0)) = ''Y''"
    by (simp_all add: interleaved_heap_def)
  have items: "display_items interleaved_heap scenario_selector
     = [CategoryItem ''X'' 0, ComponentItem 0 0, CategoryItem ''Y'' 1, ComponentItem 1 1,
        CategoryItem ''X'' 2, ComponentItem 2 2]"
    by (simp add: display_items_def cs cat)
  from display_items_adjacent_headers [OF refl cs [symmetric],
      of interleaved_heap]
  have "\<forall>i k j. i < k \<and> k < j \<and> j < length [0::nat, 1, 2]
          \<and> category (interleaved_heap ([0, 1, 2] ! i)) = category (interleaved_heap ([0, 1, 2] ! j))
          \<and> category (interleaved_heap ([0, 1, 2] ! k)) \<noteq> category (interleaved_heap ([0, 1, 2] ! j)) \<longrightarrow>
          (\<exists>p q. p \<le> i \<and> k < q \<and> q \<le> j
             \<and> CategoryItem (category (interleaved_heap ([0, 1, 2] ! j))) (int p)
                 \<in> set (display_items interleaved_heap scenario_selector)
             \<and> CategoryItem (category (interleaved_heap ([0, 1, 2] ! j))) (int q)
                 \<in> set (display_items interleaved_heap scenario_selector))"
    by blast
  from this [rule_format, of 0 1 2]
  have "\<exists>p q. p \<le> (0::nat) \<and> (1::nat) < q \<and> q \<le> 2
        \<and> CategoryItem ''X'' (int p) \<in> set (display_items interleaved_heap scenario_selector)
        \<and> CategoryItem ''X'' (int q) \<in> set (display_items interleaved_heap scenario_selector)"
    by (simp add: cat)
  with items cat show ?thesis
    by simp
qed

subsection \<open>Scrolling\<close>

lemma build_display_items_step:
  "build_display_items h (c # rest) i cur =
     (if Some (category (h c)) \<noteq> cur then [CategoryItem (category (h c)) i] else [])
     @ ComponentItem c i # build_display_items h rest (i + 1) (Some (category (h c)))"
  by simp

lemma find_display_idx_first:
  "idx < length items \<Longrightarrow> row_of ci (items ! idx) \<Longrightarrow>
   (\<forall>j < idx. \<not> row_of ci (items ! j)) \<Longrightarrow>
   find_display_idx ci items b = b + int idx"
proof (induction items arbitrary: idx b)
  case Nil
  then show ?case by simp
next
  case (Cons x xs)
  show ?case
  proof (cases idx)
    case 0
    with Cons.prems(2) show ?thesis
      by (cases x) simp_all
  next
    case (Suc m)
    from Cons.prems(3) Suc have nx: "\<not> row_of ci x"
      by auto
    from Cons.prems Suc have m: "m < length xs" "row_of ci (xs ! m)"
      "\<forall>j < m. \<not> row_of ci (xs ! j)"
      by auto
    from nx have "find_display_idx ci (x # xs) b = find_display_idx ci xs (b + 1)"
      by (cases x) simp_all
    also from Cons.IH [OF m] have "\<dots> = b + 1 + int m" .
    finally show ?thesis
      using Suc by simp
  qed
qed

lemma build_rows_ge:
  "x \<in> set (build_display_items h cs i cur) \<Longrightarrow> row_of t x \<Longrightarrow> i \<le> t"
proof (induction cs arbitrary: i cur)
  case Nil
  then show ?case by simp
next
  case (Cons c rest)
  from Cons.prems(1)
  have "x = CategoryItem (category (h c)) i \<or> x = ComponentItem c i
      \<or> x \<in> set (build_display_items h rest (i + 1) (Some (category (h c))))"
    unfolding build_display_items_step by (auto split: if_splits)
  with Cons.prems(2) Cons.IH [of "i + 1" "Some (category (h c))"] show ?case
    by auto
qed

lemma unique_after_prefix:
  assumes "\<forall>x \<in> set P. \<not> row_of t x"
    and "m < length R" and "R ! m = v"
    and "\<forall>j < length R. row_of t (R ! j) \<longrightarrow> j = m"
  shows "length P + m < length (P @ R) \<and> (P @ R) ! (length P + m) = v
    \<and> (\<forall>j < length (P @ R). row_of t ((P @ R) ! j) \<longrightarrow> j = length P + m)"
proof (intro conjI allI impI)
  from assms(2) show "length P + m < length (P @ R)"
    by simp
  from assms(3) show "(P @ R) ! (length P + m) = v"
    by simp
next
  fix j
  assume j: "j < length (P @ R)" and r: "row_of t ((P @ R) ! j)"
  show "j = length P + m"
  proof (cases "j < length P")
    case True
    with r assms(1) show ?thesis
      by (auto simp: nth_append)
  next
    case False
    with j r have "j - length P < length R" "row_of t (R ! (j - length P))"
      by (auto simp: nth_append)
    with assms(4) have "j - length P = m"
      by blast
    with False show ?thesis
      by simp
  qed
qed

lemma build_row_position:
  "k < length cs \<Longrightarrow>
   \<exists>idx < length (build_display_items h cs i cur).
     build_display_items h cs i cur ! idx = ComponentItem (cs ! k) (i + int k)
     \<and> (\<forall>j < length (build_display_items h cs i cur).
           row_of (i + int k) (build_display_items h cs i cur ! j) \<longrightarrow> j = idx)"
proof (induction cs arbitrary: i cur k)
  case Nil
  then show ?case by simp
next
  case (Cons c rest)
  let ?H = "if Some (category (h c)) \<noteq> cur then [CategoryItem (category (h c)) i] else []"
  let ?R = "build_display_items h rest (i + 1) (Some (category (h c)))"
  have items: "build_display_items h (c # rest) i cur = ?H @ ComponentItem c i # ?R"
    by (rule build_display_items_step)
  show ?case
  proof (cases k)
    case 0
    have pre: "\<forall>x \<in> set ?H. \<not> row_of (i + int k) x"
      by simp
    have uniq: "\<forall>j < length (ComponentItem c i # ?R).
        row_of (i + int k) ((ComponentItem c i # ?R) ! j) \<longrightarrow> j = 0"
    proof (intro allI impI)
      fix j
      assume j: "j < length (ComponentItem c i # ?R)"
        and r: "row_of (i + int k) ((ComponentItem c i # ?R) ! j)"
      show "j = 0"
      proof (cases j)
        case (Suc m)
        with j r have "?R ! m \<in> set ?R" "row_of i (?R ! m)"
          using 0 by simp_all
        from build_rows_ge [OF this] show ?thesis
          by simp
      qed simp
    qed
    from unique_after_prefix [OF pre _ _ uniq, of "ComponentItem c i"] 0
    show ?thesis
      unfolding items by (intro exI [of _ "length ?H + 0"]) simp
  next
    case (Suc k')
    with Cons.prems have k': "k' < length rest"
      by simp
    from Cons.IH [OF k', of "i + 1" "Some (category (h c))"]
    obtain m where m: "m < length ?R" "?R ! m = ComponentItem (rest ! k') (i + 1 + int k')"
      "\<forall>j < length ?R. row_of (i + 1 + int k') (?R ! j) \<longrightarrow> j = m"
      by blast
    have t: "i + int k = i + 1 + int k'"
      using Suc by simp
    have pre: "\<forall>x \<in> set (?H @ [ComponentItem c i]). \<not> row_of (i + int k) x"
      using Suc by simp
    have eq: "build_display_items h (c # rest) i cur = (?H @ [ComponentItem c i]) @ ?R"
      unfolding items by simp
    have nth: "(c # rest) ! k = rest ! k'"
      using Suc by simp
    from unique_after_prefix [OF pre m(1) m(2) [folded t] m(3) [folded t]]
    show ?thesis
      unfolding eq nth by blast
  qed
qed

lemma current_row_found:
  assumes "0 \<le> current_index self" and "current_index self < int (length (components self))"
  shows "\<exists>idx < length (display_items h self).
      display_items h self ! idx
        = ComponentItem (components self ! nat (current_index self)) (current_index self)
      \<and> (\<forall>j < length (display_items h self).
            row_of (current_index self) (display_items h self ! j) \<longrightarrow> j = idx)
      \<and> find_display_idx (current_index self) (display_items h self) 0 = int idx"
proof -
  from assms have k: "nat (current_index self) < length (components self)"
    and ci: "0 + int (nat (current_index self)) = current_index self"
    by simp_all
  from build_row_position [OF k, of h 0 None, unfolded ci, folded display_items_def]
  obtain idx where idx: "idx < length (display_items h self)"
    "display_items h self ! idx
       = ComponentItem (components self ! nat (current_index self)) (current_index self)"
    "\<forall>j < length (display_items h self).
       row_of (current_index self) (display_items h self ! j) \<longrightarrow> j = idx"
    by blast
  from idx(2) have row: "row_of (current_index self) (display_items h self ! idx)"
    by simp
  have before: "\<forall>j < idx. \<not> row_of (current_index self) (display_items h self ! j)"
  proof (intro allI impI notI)
    fix j
    assume j: "j < idx" and r: "row_of (current_index self) (display_items h self ! j)"
    from j idx(1) have "j < length (display_items h self)"
      by simp
    with idx(3) r have "j = idx"
      by blast
    with j show False
      by simp
  qed
  from find_display_idx_first [OF idx(1) row before, of 0]
  have "find_display_idx (current_index self) (display_items h self) 0 = int idx"
    by simp
  with idx show ?thesis
    by blast
qed

lemma draw_components_scroll:
  "scroll_offset (draw_components H h self)
     = (let cdi = find_display_idx (current_index self) (display_items h self) 0
        in if cdi < scroll_offset self then cdi
           else if scroll_offset self + get_visible_rows H \<le> cdi
           then cdi - get_visible_rows H + 1
           else scroll_offset self)"
  and draw_components_current_index:
  "current_index (draw_components H h self) = current_index self"
  and draw_components_components:
  "components (draw_components H h self) = components self"
  by (simp_all add: draw_components_def Let_def)

text \<open>
  C4. Take a selector whose \<open>current_index\<close> is inside the catalog, apply \<open>move_up\<close>,
  \<open>move_down\<close> or nothing, and render. The display items hold exactly one row whose
  component index is \<open>current_index\<close>, at a position \<open>idx\<close>, and after \<open>draw_components\<close>
  that position lies within \<open>[scroll_offset, scroll_offset + visible_rows)\<close>. The new
  offset is \<open>idx\<close> when the row was above the viewport, \<open>idx - visible_rows + 1\<close> when it
  was at or below its end, and the old offset otherwise; the render changes nothing else.
\<close>

theorem cursor_row_stays_in_viewport:
  assumes "op = move_up \<or> op = move_down \<or> op = (\<lambda>s. s)"
    and "0 \<le> current_index self0"
    and "current_index self0 < int (length (components self0))"
    and "self = op self0"
    and "items = display_items h self"
    and "vr = get_visible_rows H"
  shows "\<exists>idx < length items.
       items ! idx
         = ComponentItem (components self ! nat (current_index self)) (current_index self)
     \<and> (\<forall>j < length items. row_of (current_index self) (items ! j) \<longrightarrow> j = idx)
     \<and> scroll_offset (draw_components H h self) \<le> int idx
     \<and> int idx < scroll_offset (draw_components H h self) + vr
     \<and> scroll_offset (draw_components H h self)
         = (if int idx < scroll_offset self then int idx
            else if scroll_offset self + vr \<le> int idx then int idx - vr + 1
            else scroll_offset self)
     \<and> current_index (draw_components H h self) = current_index self
     \<and> components (draw_components H h self) = components self"
proof -
  from assms(2,3) have start: "current_index self0 \<le> int (length (components self0)) - 1"
    by simp
  from assms(1,4) have comps: "components self = components self0"
    by auto
  from assms(1,4) move_up_in_range [OF assms(2) start] move_down_in_range [OF assms(2) start]
    assms(2) start
  have "0 \<le> current_index self \<and> current_index self \<le> int (length (components self0)) - 1"
    by auto
  with comps have valid: "0 \<le> current_index self"
    "current_index self < int (length (components self))"
    by simp_all
  from current_row_found [OF valid, of h, folded assms(5)]
  obtain idx where idx: "idx < length items"
    "items ! idx
       = ComponentItem (components self ! nat (current_index self)) (current_index self)"
    "\<forall>j < length items. row_of (current_index self) (items ! j) \<longrightarrow> j = idx"
    "find_display_idx (current_index self) items 0 = int idx"
    by blast
  have vr: "1 \<le> vr"
    unfolding assms(6) get_visible_rows_def by simp
  have so: "scroll_offset (draw_components H h self)
         = (if int idx < scroll_offset self then int idx
            else if scroll_offset self + vr \<le> int idx then int idx - vr + 1
            else scroll_offset self)"
    unfolding draw_components_scroll assms(6) [symmetric] assms(5) [symmetric] idx(4) Let_def ..
  from so vr have lo: "scroll_offset (draw_components H h self) \<le> int idx"
    and hi: "int idx < scroll_offset (draw_components H h self) + vr"
    by (simp_all split: if_splits)
  from idx(1,2,3) lo hi so show ?thesis
    using draw_components_current_index [of H h self] draw_components_components [of H h self]
    by blast
qed

theorem cursor_row_stays_in_viewport_witness:
  "0 \<le> current_index (scenario_selector\<lparr>current_index := 1\<rparr>)
   \<and> current_index (scenario_selector\<lparr>current_index := 1\<rparr>)
       < int (length (components (scenario_selector\<lparr>current_index := 1\<rparr>)))
   \<and> move_down (scenario_selector\<lparr>current_index := 1\<rparr>)
       = scenario_selector\<lparr>current_index := 2\<rparr>
   \<and> display_items scenario_heap (scenario_selector\<lparr>current_index := 2\<rparr>)
       = [CategoryItem ''X'' 0, ComponentItem 0 0, ComponentItem 1 1,
          CategoryItem ''Y'' 2, ComponentItem 2 2]
   \<and> get_visible_rows 10 = 2
   \<and> scroll_offset (draw_components 10 scenario_heap (scenario_selector\<lparr>current_index := 2\<rparr>)) = 3
   \<and> (\<exists>idx < 5. idx = 4
        \<and> scroll_offset (draw_components 10 scenario_heap
             (scenario_selector\<lparr>current_index := 2\<rparr>)) \<le> int idx
        \<and> int idx < scroll_offset (draw_components 10 scenario_heap
             (scenario_selector\<lparr>current_index := 2\<rparr>)) + 2)"
proof -
  let ?start = "scenario_selector\<lparr>current_index := 1\<rparr>"
  let ?s = "scenario_selector\<lparr>current_index := 2\<rparr>"
  have h1: "move_down = move_up \<or> move_down = move_down \<or> move_down = (\<lambda>s. s)"
    by simp
  have h2: "0 \<le> current_index ?start"
    by simp
  have h3: "current_index ?start < int (length (components ?start))"
    by (simp add: scenario_selector_def init_selector_def)
  have h4: "?s = move_down ?start"
    by (simp add: move_down_def scenario_selector_def init_selector_def)
  have cat: "category (scenario_heap 0) = ''X''" "category (scenario_heap (Suc 0)) = ''X''"
    "category (scenario_heap 2) = ''Y''"
    by (simp_all add: scenario_heap_def)
  have items: "display_items scenario_heap ?s
       = [CategoryItem ''X'' 0, ComponentItem 0 0, ComponentItem 1 1,
          CategoryItem ''Y'' 2, ComponentItem 2 2]"
    by (simp add: display_items_def scenario_selector_def init_selector_def cat)
  have h6: "(2::int) = get_visible_rows 10"
    by (simp add: get_visible_rows_def)
  have so: "scroll_offset ?s = 0" and ci: "current_index ?s = 2"
    by (simp_all add: scenario_selector_def init_selector_def)
  let ?L = "[CategoryItem ''X'' 0, ComponentItem 0 0, ComponentItem 1 1,
          CategoryItem ''Y'' 2, ComponentItem 2 2]"
  let ?d = "draw_components 10 scenario_heap ?s"
  from cursor_row_stays_in_viewport [OF h1 h2 h3 h4 items [symmetric] h6]
  obtain idx where len: "idx < length ?L"
    and uniq: "\<forall>j < length ?L. row_of (current_index ?s) (?L ! j) \<longrightarrow> j = idx"
    and lo: "scroll_offset ?d \<le> int idx"
    and hi: "int idx < scroll_offset ?d + 2"
    and eq: "scroll_offset ?d
         = (if int idx < scroll_offset ?s then int idx
            else if scroll_offset ?s + 2 \<le> int idx then int idx - 2 + 1
            else scroll_offset ?s)"
    by blast
  have "4 < length ?L" and "row_of (current_index ?s) (?L ! 4)"
    by (simp_all add: ci)
  with uniq have four: "idx = 4"
    by blast
  from eq have off: "scroll_offset ?d = 3"
    unfolding four so by simp
  from lo hi have ex: "\<exists>idx < 5. idx = (4::nat)
        \<and> scroll_offset ?d \<le> int idx \<and> int idx < scroll_offset ?d + 2"
    unfolding four by simp
  from h2 h3 h4 [symmetric] items h6 [symmetric] off ex show ?thesis
    by (intro conjI)
qed

lemma find_display_idx_nonneg: "0 \<le> b \<Longrightarrow> 0 \<le> find_display_idx ci items b"
proof (induction items arbitrary: b)
  case Nil
  show ?case by simp
next
  case (Cons x xs)
  from Cons.prems have "0 \<le> b + 1"
    by simp
  from Cons.IH [OF this] Cons.prems show ?case
    by (cases x) simp_all
qed

lemma draw_components_scroll_nonneg:
  assumes "0 \<le> scroll_offset self"
  shows "0 \<le> scroll_offset (draw_components H h self)"
proof -
  have "0 \<le> find_display_idx (current_index self) (display_items h self) 0"
    by (rule find_display_idx_nonneg) simp
  with assms show ?thesis
    unfolding draw_components_scroll Let_def by simp
qed

section \<open>Properties of the input loop\<close>

subsection \<open>What the loop changes\<close>

lemma only_selected_changed_refl: "only_selected_changed cs h h"
proof -
  have "\<And>r. h r = (h r)\<lparr>selected := selected (h r)\<rparr>"
    by simp
  then show ?thesis
    unfolding only_selected_changed_def by blast
qed

lemma only_selected_changed_trans:
  assumes "only_selected_changed cs h h1" and "only_selected_changed cs h1 h2"
  shows "only_selected_changed cs h h2"
  unfolding only_selected_changed_def
proof (intro allI conjI impI)
  fix r
  assume "r \<notin> set cs"
  with assms show "h2 r = h r"
    by (simp add: only_selected_changed_def)
next
  fix r
  from assms(1) obtain b where b: "h1 r = (h r)\<lparr>selected := b\<rparr>"
    unfolding only_selected_changed_def by blast
  from assms(2) obtain b' where b': "h2 r = (h1 r)\<lparr>selected := b'\<rparr>"
    unfolding only_selected_changed_def by blast
  from b b' have "h2 r = (h r)\<lparr>selected := b'\<rparr>"
    by simp
  then show "\<exists>b. h2 r = (h r)\<lparr>selected := b\<rparr>" ..
qed

lemma only_selected_changed_slug:
  "only_selected_changed cs h h' \<Longrightarrow> slug (h' r) = slug (h r)"
proof -
  assume "only_selected_changed cs h h'"
  then obtain b where "h' r = (h r)\<lparr>selected := b\<rparr>"
    unfolding only_selected_changed_def by blast
  then show ?thesis
    by simp
qed

lemma only_selected_changed_outside:
  "only_selected_changed cs h h' \<Longrightarrow> r \<notin> set cs \<Longrightarrow> h' r = h r"
  by (simp add: only_selected_changed_def)

lemma set_all_selected:
  "fold (\<lambda>r h'. h'(r := (h' r)\<lparr>selected := b\<rparr>)) cs h
     = (\<lambda>r. if r \<in> set cs then (h r)\<lparr>selected := b\<rparr> else h r)"
proof (induction cs arbitrary: h)
  case Nil
  show ?case by simp
next
  case (Cons c cs)
  show ?case
    unfolding fold_Cons comp_def Cons.IH by (rule ext) simp
qed

lemma select_all_apply:
  "select_all self h r = (if r \<in> set (components self) then (h r)\<lparr>selected := True\<rparr> else h r)"
  unfolding select_all_def set_all_selected ..

lemma deselect_all_apply:
  "deselect_all self h r = (if r \<in> set (components self) then (h r)\<lparr>selected := False\<rparr> else h r)"
  unfolding deselect_all_def set_all_selected ..

lemma flag_update_changes:
  "only_selected_changed cs h (\<lambda>r. if r \<in> set cs then (h r)\<lparr>selected := b\<rparr> else h r)"
  unfolding only_selected_changed_def
proof (intro allI conjI impI)
  fix r
  assume "r \<notin> set cs"
  then show "(if r \<in> set cs then (h r)\<lparr>selected := b\<rparr> else h r) = h r"
    by simp
next
  fix r
  show "\<exists>b'. (if r \<in> set cs then (h r)\<lparr>selected := b\<rparr> else h r) = (h r)\<lparr>selected := b'\<rparr>"
  proof (cases "r \<in> set cs")
    case True
    then show ?thesis by auto
  next
    case False
    then have "(if r \<in> set cs then (h r)\<lparr>selected := b\<rparr> else h r)
        = (h r)\<lparr>selected := selected (h r)\<rparr>"
      by simp
    then show ?thesis ..
  qed
qed

lemma select_all_changes: "only_selected_changed (components self) h (select_all self h)"
  unfolding select_all_def set_all_selected by (rule flag_update_changes)

lemma deselect_all_changes: "only_selected_changed (components self) h (deselect_all self h)"
  unfolding deselect_all_def set_all_selected by (rule flag_update_changes)

lemma py_index_in_set: "py_index xs i = Inr r \<Longrightarrow> r \<in> set xs"
  by (auto simp: py_index_def split: if_splits)


lemma toggle_current_changes:
  assumes "toggle_current self h = Inr h'"
  shows "only_selected_changed (components self) h h'"
proof -
  from assms obtain c where c: "py_index (components self) (current_index self) = Inr c"
    and h': "h' = h(c := (h c)\<lparr>selected := \<not> selected (h c)\<rparr>)"
    by (auto simp: toggle_current_def split: sum.splits)
  from c have mem: "c \<in> set (components self)"
    by (rule py_index_in_set)
  show ?thesis
    unfolding only_selected_changed_def
  proof (intro allI conjI impI)
    fix r
    assume "r \<notin> set (components self)"
    with mem h' show "h' r = h r"
      by auto
  next
    fix r
    show "\<exists>b. h' r = (h r)\<lparr>selected := b\<rparr>"
    proof (cases "r = c")
      case True
      with h' show ?thesis by auto
    next
      case False
      with h' have "h' r = (h r)\<lparr>selected := selected (h r)\<rparr>"
        by simp
      then show ?thesis ..
    qed
  qed
qed


lemma draw_ok: "draw f h self = Inr self' \<Longrightarrow>
    draw_raises f = None \<and> self' = draw_components (fst (getmaxyx f)) h self"
  by (auto simp: draw_def split: option.splits)

lemma draw_fails: "draw f h self = Inl (e, s) \<Longrightarrow>
    draw_raises f = Some e \<and> components s = components self"
  by (auto simp: draw_def draw_components_components split: option.splits)

lemma run_pass_store:
  assumes "run_pass f h self = (res, h', self')"
  shows "only_selected_changed (components self) h h'"
proof (cases "draw f h self")
  case (Inl raised)
  with assms have "h' = h"
    by (simp add: run_pass_def split: prod.splits)
  then show ?thesis
    by (simp add: only_selected_changed_refl)
next
  case (Inr s)
  from draw_ok [OF Inr] have cs: "components s = components self"
    by (simp add: draw_components_components)
  from assms Inr consider "h' = h" | "toggle_current s h = Inr h'"
    | "h' = select_all s h" | "h' = deselect_all s h"
    by (auto simp: run_pass_def split: sum.splits if_splits)
  then show ?thesis
  proof cases
    case 1
    then show ?thesis by (simp add: only_selected_changed_refl)
  next
    case 2
    from toggle_current_changes [OF this] cs show ?thesis by simp
  next
    case 3
    with select_all_changes [of s h] cs show ?thesis by simp
  next
    case 4
    with deselect_all_changes [of s h] cs show ?thesis by simp
  qed
qed

lemma run_pass_components:
  assumes "run_pass f h self = (res, h', self')"
  shows "components self' = components self"
proof (cases "draw f h self")
  case (Inl raised)
  obtain e s where raised: "raised = (e, s)"
    by (cases raised) auto
  from Inl raised assms have "self' = s"
    by (simp add: run_pass_def)
  with draw_fails [OF Inl [unfolded raised]] show ?thesis
    by simp
next
  case (Inr s)
  from draw_ok [OF Inr] have cs: "components s = components self"
    by (simp add: draw_components_components)
  from assms Inr have "components self' = components s"
    by (auto simp: run_pass_def split: sum.splits if_splits)
  with cs show ?thesis by simp
qed

lemma run_pass_not_blocked: "run_pass f h self = (Some res, h', self') \<Longrightarrow> res \<noteq> Blocked"
  by (auto simp: run_pass_def split: sum.splits if_splits)

lemma run_store_components:
  "run fs h self = (res, h', self') \<Longrightarrow>
   only_selected_changed (components self) h h' \<and> components self' = components self"
proof (induction fs arbitrary: h self)
  case Nil
  then show ?case
    by (simp add: only_selected_changed_refl)
next
  case (Cons f fs)
  obtain r h1 s1 where pass: "run_pass f h self = (r, h1, s1)"
    by (cases "run_pass f h self") auto
  note st = run_pass_store [OF pass] and cs = run_pass_components [OF pass]
  show ?case
  proof (cases r)
    case None
    with Cons.prems pass have "run fs h1 s1 = (res, h', self')"
      by simp
    from Cons.IH [OF this] cs st show ?thesis
      by (auto intro: only_selected_changed_trans)
  next
    case (Some x)
    with Cons.prems pass st cs show ?thesis
      by simp
  qed
qed

lemma run_append_blocked:
  "run pre h self = (Blocked, h', self') \<Longrightarrow> run (pre @ fs) h self = run fs h' self'"
proof (induction pre arbitrary: h self)
  case Nil
  then show ?case by simp
next
  case (Cons f pre)
  obtain r h1 s1 where pass: "run_pass f h self = (r, h1, s1)"
    by (cases "run_pass f h self") auto
  show ?case
  proof (cases r)
    case None
    with Cons.prems pass have "run pre h1 s1 = (Blocked, h', self')"
      by simp
    from Cons.IH [OF this] None pass show ?thesis
      by simp
  next
    case (Some x)
    with Cons.prems pass have "x = Blocked"
      by simp
    with run_pass_not_blocked [of f h self x h1 s1] pass Some show ?thesis
      by simp
  qed
qed

subsection \<open>Confirming\<close>

lemma run_pass_confirm:
  assumes "draw_raises f = None" and "getch f = Inr key"
    and "key = 10 \<or> key = KEY_ENTER \<or> key = 13"
  shows "run_pass f h self
     = (Some (Returned (Some (map (\<lambda>c. slug (h c))
                               (filter (\<lambda>c. selected (h c)) (components self))))),
        h, draw_components (fst (getmaxyx f)) h self)"
  using assms
  by (auto simp: run_pass_def draw_def draw_components_components
      KEY_UP_def KEY_DOWN_def KEY_ENTER_def)

lemma run_pass_cancel:
  assumes "draw_raises f = None"
    and "getch f = Inl KeyboardInterrupt \<or> getch f = Inr 113 \<or> getch f = Inr 81
         \<or> getch f = Inr 27"
  shows "run_pass f h self
     = (Some (Returned None), h, (draw_components (fst (getmaxyx f)) h self)\<lparr>cancelled := True\<rparr>)"
  using assms
  by (auto simp: run_pass_def draw_def KEY_UP_def KEY_DOWN_def KEY_ENTER_def)

lemma run_pass_select_all:
  assumes "draw_raises f = None" and "getch f = Inr key" and "key = 97 \<or> key = 65"
  shows "run_pass f h self
     = (None, select_all (draw_components (fst (getmaxyx f)) h self) h,
        draw_components (fst (getmaxyx f)) h self)"
  using assms
  by (auto simp: run_pass_def draw_def KEY_UP_def KEY_DOWN_def)

lemma run_pass_deselect_all:
  assumes "draw_raises f = None" and "getch f = Inr key" and "key = 110 \<or> key = 78"
  shows "run_pass f h self
     = (None, deselect_all (draw_components (fst (getmaxyx f)) h self) h,
        draw_components (fst (getmaxyx f)) h self)"
  using assms
  by (auto simp: run_pass_def draw_def KEY_UP_def KEY_DOWN_def)

text \<open>
  C1. Let the loop have consumed the passes \<open>pre\<close> and be waiting for a key, the store
  being \<open>h'\<close> by then. If the next pass renders and reads an enter key (10, 13 or
  \<open>KEY_ENTER\<close>), \<open>run\<close> returns the slugs of exactly the components whose \<open>selected\<close> flag
  is set in \<open>h'\<close>, in the order of the catalog the session started with, whatever the
  order of the toggles in \<open>pre\<close>. If a select-all key (\<open>a\<close>, \<open>A\<close>) comes before the enter
  key, the result is the slugs of the whole catalog in catalog order; if a deselect-all key
  (\<open>n\<close>, \<open>N\<close>) does, it is the empty list.
\<close>

theorem confirm_returns_selected_slugs:
  assumes "run pre h self = (Blocked, h', self')"
    and "draw_raises enter = None" and "getch enter = Inr key"
    and "key = 10 \<or> key = KEY_ENTER \<or> key = 13"
    and "draw_raises fa = None" and "getch fa = Inr ka" and "ka = 97 \<or> ka = 65"
    and "draw_raises fn = None" and "getch fn = Inr kn" and "kn = 110 \<or> kn = 78"
  shows "fst (run (pre @ [enter]) h self)
       = Returned (Some (map (\<lambda>c. slug (h c))
                             (filter (\<lambda>c. selected (h' c)) (components self))))
    \<and> fst (run (pre @ [fa, enter]) h self)
       = Returned (Some (map (\<lambda>c. slug (h c)) (components self)))
    \<and> fst (run (pre @ [fn, enter]) h self) = Returned (Some [])"
proof -
  from run_store_components [OF assms(1)]
  have st: "only_selected_changed (components self) h h'"
    and cs: "components self' = components self"
    by simp_all
  have slug: "\<And>c. slug (h' c) = slug (h c)"
    by (rule only_selected_changed_slug [OF st])
  note confirm = run_pass_confirm [OF assms(2,3,4)]
  have one: "fst (run (pre @ [enter]) h self)
       = Returned (Some (map (\<lambda>c. slug (h c))
                             (filter (\<lambda>c. selected (h' c)) (components self))))"
    unfolding run_append_blocked [OF assms(1)] by (simp add: confirm cs slug)
  let ?d = "draw_components (fst (getmaxyx fa)) h' self'"
  have dcs: "components ?d = components self"
    by (simp add: draw_components_components cs)
  have all_sel: "filter (\<lambda>c. selected (select_all ?d h' c)) (components self) = components self"
    by (simp add: select_all_apply dcs)
  have all_slug: "\<And>c. slug (select_all ?d h' c) = slug (h c)"
    by (simp add: select_all_apply slug)
  have two: "fst (run (pre @ [fa, enter]) h self)
       = Returned (Some (map (\<lambda>c. slug (h c)) (components self)))"
    unfolding run_append_blocked [OF assms(1)]
    by (simp add: run_pass_select_all [OF assms(5,6,7)] confirm draw_components_components
        cs dcs all_sel all_slug)
  let ?e = "draw_components (fst (getmaxyx fn)) h' self'"
  have ecs: "components ?e = components self"
    by (simp add: draw_components_components cs)
  have none_sel: "filter (\<lambda>c. selected (deselect_all ?e h' c)) (components self) = []"
    by (simp add: deselect_all_apply ecs)
  have three: "fst (run (pre @ [fn, enter]) h self) = Returned (Some [])"
    unfolding run_append_blocked [OF assms(1)]
    by (simp add: run_pass_deselect_all [OF assms(8,9,10)] confirm draw_components_components
        cs ecs none_sel)
  from one two three show ?thesis
    by simp
qed

lemmas session_simps =
  key_frame_def run_pass_def draw_def draw_components_def get_visible_rows_def
  display_items_def scenario_heap_def scenario_selector_def init_selector_def
  move_up_def move_down_def toggle_current_def py_index_def select_all_def deselect_all_def
  KEY_UP_def KEY_DOWN_def KEY_ENTER_def KEY_RESIZE_def

theorem confirm_returns_selected_slugs_witness:
  "fst (run (map key_frame [110, 106, 106, 32, 107, 107, 32]) scenario_heap scenario_selector)
     = Blocked
   \<and> fst (run (map key_frame [110, 106, 106, 32, 107, 107, 32] @ [key_frame 10])
            scenario_heap scenario_selector)
     = Returned (Some [''A'', ''C''])
   \<and> fst (run (map key_frame [110, 106, 106, 32, 107, 107, 32] @ [key_frame 97, key_frame 10])
            scenario_heap scenario_selector)
     = Returned (Some [''A'', ''B'', ''C''])
   \<and> fst (run (map key_frame [110, 106, 106, 32, 107, 107, 32] @ [key_frame 78, key_frame 10])
            scenario_heap scenario_selector)
     = Returned (Some [])"
proof -
  define pre where "pre = map key_frame [110, 106, 106, 32, 107, 107, 32]"
  let ?r = "run pre scenario_heap scenario_selector"
  have blocked: "fst ?r = Blocked"
    unfolding pre_def by (simp add: session_simps)
  then have pre: "?r = (Blocked, fst (snd ?r), snd (snd ?r))"
    by (metis prod.collapse)
  have flags: "selected (fst (snd ?r) 0)" "\<not> selected (fst (snd ?r) (Suc 0))"
    "selected (fst (snd ?r) 2)"
    unfolding pre_def by (simp_all add: session_simps)
  have slugs: "slug (scenario_heap 0) = ''A''" "slug (scenario_heap (Suc 0)) = ''B''"
    "slug (scenario_heap 2) = ''C''"
    by (simp_all add: scenario_heap_def)
  have cs: "components scenario_selector = [0, 1, 2]"
    by (simp add: scenario_selector_def init_selector_def)
  have k: "draw_raises (key_frame 10) = None" "getch (key_frame 10) = Inr 10"
    "(10::int) = 10 \<or> (10::int) = KEY_ENTER \<or> (10::int) = 13"
    "draw_raises (key_frame 97) = None" "getch (key_frame 97) = Inr 97"
    "(97::int) = 97 \<or> (97::int) = 65"
    "draw_raises (key_frame 78) = None" "getch (key_frame 78) = Inr 78"
    "(78::int) = 110 \<or> (78::int) = 78"
    by (simp_all add: key_frame_def)
  from confirm_returns_selected_slugs [OF pre k]
  have "fst (run (pre @ [key_frame 10]) scenario_heap scenario_selector)
          = Returned (Some [''A'', ''C''])
      \<and> fst (run (pre @ [key_frame 97, key_frame 10]) scenario_heap scenario_selector)
          = Returned (Some [''A'', ''B'', ''C''])
      \<and> fst (run (pre @ [key_frame 78, key_frame 10]) scenario_heap scenario_selector)
          = Returned (Some [])"
    unfolding cs by (simp add: flags slugs)
  with blocked show ?thesis
    unfolding pre_def by blast
qed

subsection \<open>Cancelling\<close>

text \<open>
  C2. Let the loop have consumed the passes \<open>pre\<close> and be waiting for a key. If the next
  pass renders and \<open>getch\<close> raises \<open>KeyboardInterrupt\<close> or returns \<open>q\<close>, \<open>Q\<close> or escape,
  \<open>run\<close> returns \<open>None\<close> and sets \<open>cancelled\<close>. If it returns an enter key, \<open>run\<close> returns a
  list, never \<open>None\<close>. \<open>None\<close> is not the empty list.
\<close>

theorem cancel_is_distinct_from_confirm:
  assumes "run pre h self = (Blocked, h', self')"
    and "draw_raises f = None"
  shows "(getch f = Inl KeyboardInterrupt \<or> getch f = Inr 113 \<or> getch f = Inr 81
            \<or> getch f = Inr 27 \<longrightarrow>
            fst (run (pre @ [f]) h self) = Returned None
            \<and> cancelled (snd (snd (run (pre @ [f]) h self))))
       \<and> (getch f = Inr 10 \<or> getch f = Inr KEY_ENTER \<or> getch f = Inr 13 \<longrightarrow>
            (\<exists>slugs. fst (run (pre @ [f]) h self) = Returned (Some slugs))
            \<and> fst (run (pre @ [f]) h self) \<noteq> Returned None)
       \<and> Returned None \<noteq> Returned (Some [])"
proof (intro conjI impI)
  assume c: "getch f = Inl KeyboardInterrupt \<or> getch f = Inr 113 \<or> getch f = Inr 81
      \<or> getch f = Inr 27"
  note pass = run_pass_cancel [OF assms(2) c, of h' self']
  show "fst (run (pre @ [f]) h self) = Returned None"
    unfolding run_append_blocked [OF assms(1)] by (simp add: pass)
  show "cancelled (snd (snd (run (pre @ [f]) h self)))"
    unfolding run_append_blocked [OF assms(1)] by (simp add: pass)
next
  assume e: "getch f = Inr 10 \<or> getch f = Inr KEY_ENTER \<or> getch f = Inr 13"
  then obtain key where key: "getch f = Inr key" "key = 10 \<or> key = KEY_ENTER \<or> key = 13"
    by blast
  note pass = run_pass_confirm [OF assms(2) key, of h' self']
  show "\<exists>slugs. fst (run (pre @ [f]) h self) = Returned (Some slugs)"
    unfolding run_append_blocked [OF assms(1)] by (simp add: pass)
  show "fst (run (pre @ [f]) h self) \<noteq> Returned None"
    unfolding run_append_blocked [OF assms(1)] by (simp add: pass)
next
  show "Returned None \<noteq> Returned (Some [])"
    by simp
qed

theorem cancel_is_distinct_from_confirm_witness:
  "fst (run [key_frame 110] scenario_heap scenario_selector) = Blocked
   \<and> fst (run ([key_frame 110] @ [key_frame 10]) scenario_heap scenario_selector)
       = Returned (Some [])
   \<and> fst (run ([key_frame 110] @ [key_frame 113]) scenario_heap scenario_selector)
       = Returned None
   \<and> cancelled (snd (snd (run ([key_frame 110] @ [key_frame 113])
        scenario_heap scenario_selector)))
   \<and> fst (run ([key_frame 110] @ [interrupt_frame]) scenario_heap scenario_selector)
       = Returned None"
proof -
  define pre where "pre = [key_frame 110]"
  let ?r = "run pre scenario_heap scenario_selector"
  have blocked: "fst ?r = Blocked"
    unfolding pre_def by (simp add: session_simps)
  then have pre: "?r = (Blocked, fst (snd ?r), snd (snd ?r))"
    by (metis prod.collapse)
  have k: "draw_raises (key_frame 10) = None" "getch (key_frame 10) = Inr 10"
    "draw_raises (key_frame 113) = None" "getch (key_frame 113) = Inr 113"
    "draw_raises interrupt_frame = None" "getch interrupt_frame = Inl KeyboardInterrupt"
    by (simp_all add: key_frame_def interrupt_frame_def)
  from cancel_is_distinct_from_confirm [OF pre k(3)] k(4)
  have q: "fst (run (pre @ [key_frame 113]) scenario_heap scenario_selector) = Returned None"
    "cancelled (snd (snd (run (pre @ [key_frame 113]) scenario_heap scenario_selector)))"
    by simp_all
  from cancel_is_distinct_from_confirm [OF pre k(5)] k(6)
  have i: "fst (run (pre @ [interrupt_frame]) scenario_heap scenario_selector) = Returned None"
    by simp
  have e: "fst (run (pre @ [key_frame 10]) scenario_heap scenario_selector) = Returned (Some [])"
    unfolding pre_def by (simp add: session_simps)
  from blocked e q i show ?thesis
    unfolding pre_def by blast
qed

section \<open>Properties of the entry points\<close>

subsection \<open>The definition table\<close>

lemma copy_components_fresh:
  "copy_components defs st = (cs, st1) \<Longrightarrow>
   next_ref st \<le> next_ref st1
   \<and> (\<forall>r < next_ref st. objs st1 r = objs st r)
   \<and> (\<forall>c \<in> set cs. next_ref st \<le> c \<and> c < next_ref st1)"
proof (induction defs arbitrary: st cs st1)
  case Nil
  then show ?case by simp
next
  case (Cons d defs)
  let ?v = "\<lparr>name = name (objs st d), slug = slug (objs st d),
             description = description (objs st d), selected = selected (objs st d),
             category = category (objs st d)\<rparr>"
  let ?st = "\<lparr>objs = (objs st)(next_ref st := ?v), next_ref = Suc (next_ref st)\<rparr>"
  obtain rs st2 where rec: "copy_components defs ?st = (rs, st2)"
    by (cases "copy_components defs ?st") auto
  with Cons.prems have cs: "cs = next_ref st # rs" and st1: "st1 = st2"
    by (simp_all add: new_component_def)
  from Cons.IH [OF rec] have ih: "Suc (next_ref st) \<le> next_ref st2"
    "\<forall>r < Suc (next_ref st). objs st2 r = ((objs st)(next_ref st := ?v)) r"
    "\<forall>c \<in> set rs. Suc (next_ref st) \<le> c \<and> c < next_ref st2"
    by simp_all
  from ih(1) have a: "next_ref st \<le> next_ref st1"
    unfolding st1 by simp
  from ih(2) have b: "\<forall>r < next_ref st. objs st1 r = objs st r"
    unfolding st1 by simp
  from ih(1,3) have c: "\<forall>c \<in> set cs. next_ref st \<le> c \<and> c < next_ref st1"
    unfolding st1 cs by auto
  from a b c show ?case by blast
qed

lemma copy_components_values:
  "copy_components defs st = (cs, st1) \<Longrightarrow> \<forall>d \<in> set defs. d < next_ref st \<Longrightarrow>
   map (objs st1) cs = map (objs st) defs"
proof (induction defs arbitrary: st cs st1)
  case Nil
  then show ?case by simp
next
  case (Cons d defs)
  let ?v = "\<lparr>name = name (objs st d), slug = slug (objs st d),
             description = description (objs st d), selected = selected (objs st d),
             category = category (objs st d)\<rparr>"
  let ?st = "\<lparr>objs = (objs st)(next_ref st := ?v), next_ref = Suc (next_ref st)\<rparr>"
  obtain rs st2 where rec: "copy_components defs ?st = (rs, st2)"
    by (cases "copy_components defs ?st") auto
  with Cons.prems(1) have cs: "cs = next_ref st # rs" and st1: "st1 = st2"
    by (simp_all add: new_component_def)
  from Cons.prems(2) have below: "\<forall>d \<in> set defs. d < next_ref ?st"
    by (auto simp: less_Suc_eq)
  from Cons.IH [OF rec below] have tl: "map (objs st2) rs = map (objs ?st) defs" .
  from Cons.prems(2) have "map (objs ?st) defs = map (objs st) defs"
    by (intro map_cong) auto
  with tl have tl': "map (objs st2) rs = map (objs st) defs"
    by simp
  from copy_components_fresh [OF rec]
  have "objs st2 (next_ref st) = ((objs st)(next_ref st := ?v)) (next_ref st)"
    by simp
  then have hd': "objs st2 (next_ref st) = objs st d"
    by simp
  from tl' hd' show ?case
    unfolding cs st1 by simp
qed

lemma run_selector_old_objects:
  assumes "run_selector defs t st = (res, st')"
  shows "\<forall>r < next_ref st. objs st' r = objs st r" and "next_ref st \<le> next_ref st'"
proof -
  obtain cs st1 where copy: "copy_components defs st = (cs, st1)"
    by (cases "copy_components defs st") auto
  note fresh = copy_components_fresh [OF copy]
  have "(\<forall>r < next_ref st. objs st' r = objs st r) \<and> next_ref st \<le> next_ref st'"
  proof (cases "init_raises t")
    case (Some e)
    with assms copy have "st' = st1"
      by (simp add: run_selector_def)
    with fresh show ?thesis by simp
  next
    case None
    obtain result h self where r: "run (frames t) (objs st1) (init_selector cs) = (result, h, self)"
      by (cases "run (frames t) (objs st1) (init_selector cs)") auto
    with assms copy None have st': "st' = st1\<lparr>objs := h\<rparr>"
      by (simp add: run_selector_def)
    from run_store_components [OF r]
    have ch: "only_selected_changed cs (objs st1) h"
      by (simp add: init_selector_def)
    have "\<forall>r < next_ref st. h r = objs st r"
    proof (intro allI impI)
      fix r
      assume lt: "r < next_ref st"
      with fresh have "r \<notin> set cs"
        by auto
      from only_selected_changed_outside [OF ch this] fresh lt show "h r = objs st r"
        by simp
    qed
    with fresh show ?thesis
      unfolding st' by simp
  qed
  then show "\<forall>r < next_ref st. objs st' r = objs st r" and "next_ref st \<le> next_ref st'"
    by simp_all
qed

lemma select_components_store:
  "snd (select_components defs t st) = snd (curses_wrapper defs t st)"
  unfolding select_components_def
  by (cases "curses_wrapper defs t st") (simp split: outcome.splits)

lemma select_components_old_objects:
  "(\<forall>r < next_ref st. objs (snd (select_components defs t st)) r = objs st r)
   \<and> next_ref st \<le> next_ref (snd (select_components defs t st))"
proof (cases "wrapper_raises t")
  case (Some e)
  then show ?thesis
    unfolding select_components_store by (simp add: curses_wrapper_def)
next
  case None
  obtain res st' where r: "run_selector defs t st = (res, st')"
    by (cases "run_selector defs t st") auto
  from run_selector_old_objects [OF r] None r show ?thesis
    unfolding select_components_store by (simp add: curses_wrapper_def)
qed

text \<open>
  C9. A session works on copies. Let every entry of the definition table be an object of
  the store when \<open>select_components\<close> is called. Whatever the terminal does (which keys
  arrive, which calls raise), every entry of the table is the same object with the same
  fields after the call as before it; the working copy the session started from held
  the values of the table, and the working copy a later session makes holds the same
  values again.
\<close>

theorem session_leaves_definitions_unchanged:
  assumes "\<forall>d \<in> set defs. d < next_ref st"
    and "st' = snd (select_components defs t st)"
  shows "(\<forall>d \<in> set defs. objs st' d = objs st d)
    \<and> (\<forall>d \<in> set defs. d < next_ref st')
    \<and> map (objs (snd (copy_components defs st))) (fst (copy_components defs st))
        = map (objs st) defs
    \<and> map (objs (snd (copy_components defs st'))) (fst (copy_components defs st'))
        = map (objs st) defs"
proof -
  from select_components_old_objects [of st defs t] assms(2)
  have old: "\<forall>r < next_ref st. objs st' r = objs st r" and nxt: "next_ref st \<le> next_ref st'"
    by simp_all
  from old assms(1) have same: "\<forall>d \<in> set defs. objs st' d = objs st d"
    by auto
  from nxt assms(1) have below: "\<forall>d \<in> set defs. d < next_ref st'"
    by auto
  have first_copy: "map (objs (snd (copy_components defs st))) (fst (copy_components defs st))
        = map (objs st) defs"
    by (rule copy_components_values [OF prod.collapse [symmetric] assms(1)])
  have "map (objs (snd (copy_components defs st'))) (fst (copy_components defs st'))
        = map (objs st') defs"
    by (rule copy_components_values [OF prod.collapse [symmetric] below])
  also from same have "\<dots> = map (objs st) defs"
    by (intro map_cong) auto
  finally show ?thesis
    using same below first_copy by blast
qed

theorem session_leaves_definitions_unchanged_witness:
  "fst (select_components [0, 1, 2] (key_terminal [32, 10]) scenario_store)
     = Returned (Some [''C''])
   \<and> \<not> selected (objs (snd (select_components [0, 1, 2] (key_terminal [32, 10])
          scenario_store)) 3)
   \<and> objs (snd (select_components [0, 1, 2] (key_terminal [32, 10]) scenario_store)) 0
       = scenario_heap 0
   \<and> selected (scenario_heap 0)
   \<and> map (objs (snd (copy_components [0, 1, 2]
              (snd (select_components [0, 1, 2] (key_terminal [32, 10]) scenario_store)))))
          (fst (copy_components [0, 1, 2]
              (snd (select_components [0, 1, 2] (key_terminal [32, 10]) scenario_store))))
       = map scenario_heap [0, 1, 2]"
proof -
  define st' where "st' = snd (select_components [0, 1, 2] (key_terminal [32, 10]) scenario_store)"
  have below: "\<forall>d \<in> set [0, 1, 2]. d < next_ref scenario_store"
    by (simp add: scenario_store_def)
  have o: "objs scenario_store = scenario_heap"
    by (simp add: scenario_store_def)
  note all = session_leaves_definitions_unchanged [OF below st'_def]
  from all have "\<forall>d \<in> set [0, 1, 2]. objs st' d = objs scenario_store d"
    by blast
  then have same: "objs st' 0 = scenario_heap 0"
    unfolding o by simp
  from all have "map (objs (snd (copy_components [0, 1, 2] st')))
          (fst (copy_components [0, 1, 2] st')) = map (objs scenario_store) [0, 1, 2]"
    by blast
  then have again: "map (objs (snd (copy_components [0, 1, 2] st')))
          (fst (copy_components [0, 1, 2] st')) = map scenario_heap [0, 1, 2]"
    unfolding o .
  have result: "fst (select_components [0, 1, 2] (key_terminal [32, 10]) scenario_store)
     = Returned (Some [''C''])"
    by (simp add: select_components_def curses_wrapper_def run_selector_def new_component_def
        key_terminal_def scenario_store_def session_simps)
  have copy: "\<not> selected (objs st' 3)"
    unfolding st'_def
    by (simp add: select_components_def curses_wrapper_def run_selector_def new_component_def
        key_terminal_def scenario_store_def session_simps)
  have sel: "selected (scenario_heap 0)"
    by (simp add: scenario_heap_def)
  from result copy same sel again show ?thesis
    unfolding st'_def by blast
qed

subsection \<open>Exceptions at the entry point\<close>















end
